theory Spec2Isabelle
  imports Complex_Main "HOL-Library.Word"
begin


section \<open>Show-Sphere: static/js/main.js\<close>

text \<open>
  The script has two parts: a \<open>DOMContentLoaded\<close> handler that schedules the dismissal of
  every alert and constructs a tooltip for every marked element, and the function
  \<^verbatim>\<open>function formatCurrency(amount) { return GLYPH + parseFloat(amount).toFixed(2); }\<close>
  where \<open>GLYPH\<close> is the one-character string literal of the rupee sign, U+20B9. The
  function is three calls into the language's built-ins: \<open>parseFloat\<close>,
  \<open>Number.prototype.toFixed\<close> and string concatenation. Their model below follows ECMA-262
  clause by clause; numbers are IEEE 754 doubles, held exactly as sign, integer significand
  and binary exponent, so that no rounding is left to the logic.
\<close>

subsection \<open>Strings\<close>

text \<open>A JavaScript string is a sequence of 16-bit code units.\<close>

type_synonym code_unit = "16 word"
type_synonym jsstring = "code_unit list"

definition str :: "string \<Rightarrow> jsstring" where
  "str s = map of_char s"

definition rupee :: code_unit where
  "rupee = 0x20B9"

definition is_digit :: "code_unit \<Rightarrow> bool" where
  "is_digit c = (0x30 \<le> c \<and> c \<le> 0x39)"

definition digit_val :: "code_unit \<Rightarrow> nat" where
  "digit_val c = unat c - 48"

definition digit_char :: "nat \<Rightarrow> code_unit" where
  "digit_char d = of_nat (48 + d)"

text \<open>The mathematical value of a run of decimal digits, most significant first.\<close>

definition digits_val :: "jsstring \<Rightarrow> nat" where
  "digits_val cs = foldl (\<lambda>a c. 10 * a + digit_val c) 0 cs"

text \<open>The digits of the decimal representation of \<open>n\<close>, without leading zeros.\<close>

fun digits_of :: "nat \<Rightarrow> jsstring" where
  "digits_of n = (if n < 10 then [digit_char n] else digits_of (n div 10) @ [digit_char (n mod 10)])"

declare digits_of.simps [simp del]

subsection \<open>Values\<close>

text \<open>
  A Number is NaN, an infinity with its sign, or a finite double \<open>Finite sg m e\<close> of
  value \<open>(-1)^sg * m * 2^e\<close>. The doubles are the finite values in canonical form
  (\<open>canonical\<close>): the significand has 53 bits, normalised unless the exponent is the least one.
\<close>

datatype number = NaN | Infinity bool | Finite bool nat int

text \<open>
  The amounts: the primitive values, whose conversion to a string runs no code of the
  caller's. (An object is converted by its own \<open>toString\<close>, which is not part of this
  script; a call with an object or a Symbol is modelled with the page, below.)
\<close>

datatype jsvalue =
    JSUndefined
  | JSNull
  | JSBoolean bool
  | JSNumber number
  | JSString jsstring

text \<open>
  The exceptions of \<open>toFixed\<close>: a RangeError for a number of fraction digits outside 0..100,
  a TypeError for a receiver that is not a Number (\<open>parseFloat\<close> always returns one).
\<close>

datatype error = RangeError | TypeError

definition canonical :: "nat \<Rightarrow> int \<Rightarrow> bool" where
  "canonical m e = (m < 2 ^ 53 \<and> - 1074 \<le> e \<and> e \<le> 971 \<and> (2 ^ 52 \<le> m \<or> e = - 1074))"

fun is_double :: "number \<Rightarrow> bool" where
  "is_double NaN = True"
| "is_double (Infinity sg) = True"
| "is_double (Finite sg m e) = canonical m e"

text \<open>The real value of a finite Number (and 0 for the others, which have none).\<close>

fun valof :: "number \<Rightarrow> real" where
  "valof (Finite sg m e) = (if sg then - 1 else 1) * real m * 2 powi e"
| "valof _ = 0"

subsection \<open>The Number value for a decimal: rounding to the nearest double\<close>

fun bitlen :: "nat \<Rightarrow> nat" where
  "bitlen n = (if n = 0 then 0 else Suc (bitlen (n div 2)))"

declare bitlen.simps [simp del]

text \<open>The integer nearest to \<open>a / b\<close>, the even one of two equally near.\<close>

definition round_half_even :: "nat \<Rightarrow> nat \<Rightarrow> nat" where
  "round_half_even a b =
     (let q = a div b; r = a mod b
      in if 2 * r < b then q
         else if b < 2 * r then q + 1
         else if even q then q else q + 1)"

text \<open>\<open>\<lfloor>log\<^sub>2 (a / b)\<rfloor>\<close> for positive \<open>a\<close> and \<open>b\<close>.\<close>

definition floor_log2 :: "nat \<Rightarrow> nat \<Rightarrow> int" where
  "floor_log2 a b =
     (let l = int (bitlen a) - int (bitlen b)
      in if (if 0 \<le> l then b * 2 ^ nat l \<le> a else b \<le> a * 2 ^ nat (- l)) then l else l - 1)"

text \<open>
  \<open>round_ratio sg a b\<close> is the Number value for \<open>(-1)^sg * a / b\<close> (ECMA-262, 6.1.6.1):
  the nearest double, ties to the even significand, an infinity from \<open>2^1024\<close> on,
  and a zero that keeps the sign.
\<close>

definition round_ratio :: "bool \<Rightarrow> nat \<Rightarrow> nat \<Rightarrow> number" where
  "round_ratio sg a b =
     (if a = 0 then Finite sg 0 (- 1074)
      else
        let e = max (floor_log2 a b - 52) (- 1074);
            m = (if 0 \<le> e then round_half_even a (b * 2 ^ nat e)
                 else round_half_even (a * 2 ^ nat (- e)) b);
            (m', e') = (if m = 2 ^ 53 then (2 ^ 52, e + 1) else (m, e))
        in if 971 < e' then Infinity sg else Finite sg m' e')"

text \<open>The Number value for \<open>(-1)^sg * s * 10^p\<close>.\<close>

definition round_decimal :: "bool \<Rightarrow> nat \<Rightarrow> int \<Rightarrow> number" where
  "round_decimal sg s p =
     (if 0 \<le> p then round_ratio sg (s * 10 ^ nat p) 1 else round_ratio sg s (10 ^ nat (- p)))"

subsection \<open>Number::toString (ECMA-262, 6.1.6.1.20), radix 10\<close>

text \<open>
  For a positive finite \<open>x\<close> the standard asks for integers \<open>n\<close>, \<open>k\<close>, \<open>s\<close> with
  \<open>k \<ge> 1\<close>, \<open>10^(k-1) \<le> s < 10^k\<close>, the Number value for \<open>s * 10^(n-k)\<close> equal to \<open>x\<close>, and
  \<open>k\<close> as small as possible; of several \<open>s\<close> the one nearest to \<open>x\<close>, the even one of two
  equally near (its Note 2, which every engine follows). Here \<open>x = a / b\<close>.
\<close>

function lead_zeros :: "nat \<Rightarrow> nat \<Rightarrow> nat" where
  "lead_zeros a b = (if a = 0 \<or> b \<le> a * 10 then 0 else Suc (lead_zeros (a * 10) b))"
  by pat_completeness auto
termination
  by (relation "measure (\<lambda>(a, b). b - a)") auto

declare lead_zeros.simps [simp del]

text \<open>The \<open>n\<close> with \<open>10^(n-1) \<le> a / b < 10^n\<close>.\<close>

definition decimal_exponent :: "nat \<Rightarrow> nat \<Rightarrow> int" where
  "decimal_exponent a b =
     (if b \<le> a then int (length (digits_of (a div b))) else - int (lead_zeros a b))"

text \<open>\<open>\<lfloor>a / b * 10^t\<rfloor>\<close>.\<close>

definition scaled_floor :: "nat \<Rightarrow> nat \<Rightarrow> int \<Rightarrow> nat" where
  "scaled_floor a b t = (if 0 \<le> t then (a * 10 ^ nat t) div b else a div (b * 10 ^ nat (- t)))"

text \<open>Whether \<open>a / b * 10^t\<close> is nearer to \<open>lo\<close> than to \<open>lo + 1\<close> (the even one on a tie).\<close>

definition nearer_lo :: "nat \<Rightarrow> nat \<Rightarrow> int \<Rightarrow> nat \<Rightarrow> bool" where
  "nearer_lo a b t lo =
     (let l = (if 0 \<le> t then 2 * a * 10 ^ nat t else 2 * a);
          r = (if 0 \<le> t then (2 * lo + 1) * b else (2 * lo + 1) * b * 10 ^ nat (- t))
      in l < r \<or> (l = r \<and> even lo))"

text \<open>
  The \<open>k\<close>-digit candidates for \<open>x = a / b\<close> of decimal exponent \<open>n0\<close> are the two \<open>k\<close>-digit
  decimals around \<open>x\<close>; the upper one may be the next power of ten.
\<close>

definition digit_candidate :: "number \<Rightarrow> nat \<Rightarrow> nat \<Rightarrow> int \<Rightarrow> nat \<Rightarrow> (nat \<times> int) option" where
  "digit_candidate x a b n0 k =
     (let t = int k - n0;
          lo = scaled_floor a b t;
          (hi, nh) = (if lo + 1 = 10 ^ k then (10 ^ (k - 1), n0 + 1) else (lo + 1, n0));
          lo_ok = (round_decimal False lo (n0 - int k) = x);
          hi_ok = (round_decimal False hi (nh - int k) = x)
      in if lo_ok \<and> hi_ok then (if nearer_lo a b t lo then Some (lo, n0) else Some (hi, nh))
         else if lo_ok then Some (lo, n0)
         else if hi_ok then Some (hi, nh)
         else None)"

fun shortest_digits :: "(nat \<Rightarrow> (nat \<times> int) option) \<Rightarrow> nat \<Rightarrow> nat \<Rightarrow> (nat \<times> nat \<times> int) option" where
  "shortest_digits cand k fuel =
     (if fuel = 0 then None
      else case cand k of
             Some (s, n) \<Rightarrow> Some (s, k, n)
           | None \<Rightarrow> shortest_digits cand (Suc k) (fuel - 1))"

declare shortest_digits.simps [simp del]

text \<open>
  \<open>(s, k, n)\<close> for the positive double \<open>m * 2^e\<close>. The search is bounded by the length of
  the exact decimal expansion of \<open>x\<close>, which is itself a candidate; the last line,
  there for totality, returns that exact expansion.
\<close>

definition number_digits :: "nat \<Rightarrow> int \<Rightarrow> nat \<times> nat \<times> int" where
  "number_digits m e =
     (let a = (if 0 \<le> e then m * 2 ^ nat e else m);
          b = (if 0 \<le> e then 1 else 2 ^ nat (- e));
          n0 = decimal_exponent a b;
          kmax = nat (if 0 \<le> e then n0 else n0 - e)
      in case shortest_digits (digit_candidate (Finite False m e) a b n0) 1 kmax of
           Some r \<Rightarrow> r
         | None \<Rightarrow> (scaled_floor a b (int kmax - n0), kmax, n0))"

definition format_digits :: "nat \<times> nat \<times> int \<Rightarrow> jsstring" where
  "format_digits r =
     (case r of (s, k, n) \<Rightarrow>
        let ds = digits_of s
        in if - 5 \<le> n \<and> n \<le> 21 then
             (if int k \<le> n then ds @ replicate (nat (n - int k)) (0x30 :: code_unit)
              else if 0 < n then take (nat n) ds @ str ''.'' @ drop (nat n) ds
              else str ''0.'' @ replicate (nat (- n)) (0x30 :: code_unit) @ ds)
           else
             (let c = (if n - 1 < 0 then str ''-'' else str ''+'');
                  d = digits_of (nat \<bar>n - 1\<bar>)
              in if k = 1 then ds @ str ''e'' @ c @ d
                 else [hd ds] @ str ''.'' @ tl ds @ str ''e'' @ c @ d))"

fun Number_toString :: "number \<Rightarrow> jsstring" where
  "Number_toString NaN = str ''NaN''"
| "Number_toString (Infinity sg) = (if sg then str ''-Infinity'' else str ''Infinity'')"
| "Number_toString (Finite sg m e) =
     (if m = 0 then str ''0''
      else (if sg then str ''-'' else []) @ format_digits (number_digits m e))"

declare Number_toString.simps(3) [simp del]

text \<open>ToString (7.1.17) on the primitive values an amount can be.\<close>

fun ToString :: "jsvalue \<Rightarrow> jsstring" where
  "ToString JSUndefined = str ''undefined''"
| "ToString JSNull = str ''null''"
| "ToString (JSBoolean b) = (if b then str ''true'' else str ''false'')"
| "ToString (JSNumber x) = Number_toString x"
| "ToString (JSString s) = s"

subsection \<open>parseFloat (ECMA-262, 19.2.4)\<close>

text \<open>
  StrWhiteSpaceChar: the WhiteSpace code points (TAB, VT, FF, ZWNBSP and the space
  separators of Unicode) and the LineTerminator code points (LF, CR, LS, PS).
\<close>

definition is_StrWhiteSpaceChar :: "code_unit \<Rightarrow> bool" where
  "is_StrWhiteSpaceChar c =
     (c = 0x0009 \<or> c = 0x000B \<or> c = 0x000C \<or> c = 0xFEFF
      \<or> c = 0x0020 \<or> c = 0x00A0 \<or> c = 0x1680 \<or> (0x2000 \<le> c \<and> c \<le> 0x200A)
      \<or> c = 0x202F \<or> c = 0x205F \<or> c = 0x3000
      \<or> c = 0x000A \<or> c = 0x000D \<or> c = 0x2028 \<or> c = 0x2029)"

definition TrimString_start :: "jsstring \<Rightarrow> jsstring" where
  "TrimString_start cs = dropWhile is_StrWhiteSpaceChar cs"

text \<open>
  The grammar of StrDecimalLiteral (7.1.4.1), as a recogniser of whole strings that
  returns the literal's value: an infinity, or sign, decimal significand and power of ten.
  \<^verbatim>\<open>
  StrDecimalLiteral         ::: [+-]? StrUnsignedDecimalLiteral
  StrUnsignedDecimalLiteral ::: Infinity
                              | DecimalDigits . DecimalDigits? ExponentPart?
                              | . DecimalDigits ExponentPart?
                              | DecimalDigits ExponentPart?
  ExponentPart              ::: [eE] [+-]? DecimalDigits
  \<close>
\<close>

datatype literal = LitInfinity bool | LitDecimal bool nat int

definition SignedInteger :: "jsstring \<Rightarrow> int option" where
  "SignedInteger cs =
     (case cs of
        [] \<Rightarrow> None
      | c # ds \<Rightarrow>
          if c = 0x2B then (if ds \<noteq> [] \<and> list_all is_digit ds then Some (int (digits_val ds)) else None)
          else if c = 0x2D then (if ds \<noteq> [] \<and> list_all is_digit ds then Some (- int (digits_val ds)) else None)
          else if list_all is_digit cs then Some (int (digits_val cs))
          else None)"

definition ExponentPart :: "jsstring \<Rightarrow> int option" where
  "ExponentPart cs =
     (case cs of
        [] \<Rightarrow> None
      | c # r \<Rightarrow> if c = 0x65 \<or> c = 0x45 then SignedInteger r else None)"

definition StrUnsignedDecimalLiteral :: "bool \<Rightarrow> jsstring \<Rightarrow> literal option" where
  "StrUnsignedDecimalLiteral sg cs =
     (if cs = str ''Infinity'' then Some (LitInfinity sg)
      else
        let ip = takeWhile is_digit cs;
            r1 = dropWhile is_digit cs;
            dot = (r1 \<noteq> [] \<and> hd r1 = 0x2E);
            fp = (if dot then takeWhile is_digit (tl r1) else []);
            r2 = (if dot then dropWhile is_digit (tl r1) else r1)
        in if ip = [] \<and> fp = [] then None
           else if r2 = [] then Some (LitDecimal sg (digits_val (ip @ fp)) (- int (length fp)))
           else case ExponentPart r2 of
                  None \<Rightarrow> None
                | Some ex \<Rightarrow> Some (LitDecimal sg (digits_val (ip @ fp)) (ex - int (length fp))))"

definition StrDecimalLiteral :: "jsstring \<Rightarrow> literal option" where
  "StrDecimalLiteral cs =
     (case cs of
        [] \<Rightarrow> None
      | c # r \<Rightarrow>
          if c = 0x2B then StrUnsignedDecimalLiteral False r
          else if c = 0x2D then StrUnsignedDecimalLiteral True r
          else StrUnsignedDecimalLiteral False cs)"

text \<open>
  StringNumericValue: the Number value for the literal's mathematical value. (For more than
  20 significant digits the standard lets an engine round the decimal first; the model
  rounds the exact value, as the engines do.)
\<close>

fun StringNumericValue :: "literal \<Rightarrow> number" where
  "StringNumericValue (LitInfinity sg) = Infinity sg"
| "StringNumericValue (LitDecimal sg s p) = round_decimal sg s p"

text \<open>The longest prefix of \<open>cs\<close> that satisfies \<open>P\<close>, tried from the whole of \<open>cs\<close> down.\<close>

fun longest_prefix_upto :: "('a list \<Rightarrow> bool) \<Rightarrow> 'a list \<Rightarrow> nat \<Rightarrow> 'a list option" where
  "longest_prefix_upto P cs 0 = (if P [] then Some [] else None)"
| "longest_prefix_upto P cs (Suc n) =
     (if P (take (Suc n) cs) then Some (take (Suc n) cs) else longest_prefix_upto P cs n)"

definition longest_prefix :: "('a list \<Rightarrow> bool) \<Rightarrow> 'a list \<Rightarrow> 'a list option" where
  "longest_prefix P cs = longest_prefix_upto P cs (length cs)"

definition is_StrDecimalLiteral :: "jsstring \<Rightarrow> bool" where
  "is_StrDecimalLiteral cs = (StrDecimalLiteral cs \<noteq> None)"

text \<open>
  \<^verbatim>\<open>parseFloat(string)\<close>: ToString, trim the leading white space, take the longest
  prefix that is a StrDecimalLiteral; NaN when there is none, else its numeric value.
\<close>

definition parseFloat :: "jsvalue \<Rightarrow> number" where
  "parseFloat v =
     (let inputString = ToString v;
          trimmed = TrimString_start inputString
      in case longest_prefix is_StrDecimalLiteral trimmed of
           None \<Rightarrow> NaN
         | Some trimmedPrefix \<Rightarrow>
             (case StrDecimalLiteral trimmedPrefix of
                None \<Rightarrow> NaN
              | Some parsedNumber \<Rightarrow> StringNumericValue parsedNumber))"

subsection \<open>Number.prototype.toFixed (ECMA-262, 21.1.3.3)\<close>

text \<open>Whether \<open>10^21 \<le> m * 2^e\<close>.\<close>

definition ge_1e21 :: "nat \<Rightarrow> int \<Rightarrow> bool" where
  "ge_1e21 m e = (if 0 \<le> e then 10 ^ 21 \<le> m * 2 ^ nat e else 10 ^ 21 * 2 ^ nat (- e) \<le> m)"

text \<open>
  The integer \<open>n\<close> for which \<open>n / 10^f - m * 2^e\<close> is as close to zero as possible,
  the larger of two such \<open>n\<close>: \<open>\<lfloor>m * 2^e * 10^f + 1/2\<rfloor>\<close>.
\<close>

definition fixed_integer :: "nat \<Rightarrow> nat \<Rightarrow> int \<Rightarrow> nat" where
  "fixed_integer f m e =
     (if 0 \<le> e then m * 2 ^ nat e * 10 ^ f
      else (2 * (m * 10 ^ f) + 2 ^ nat (- e)) div (2 * 2 ^ nat (- e)))"

definition toFixed :: "int \<Rightarrow> number \<Rightarrow> error + jsstring" where
  "toFixed fractionDigits x =
     (if fractionDigits < 0 \<or> 100 < fractionDigits then Inl RangeError
      else
        case x of
          NaN \<Rightarrow> Inr (Number_toString x)
        | Infinity sg \<Rightarrow> Inr (Number_toString x)
        | Finite sg m e \<Rightarrow>
            let f = nat fractionDigits;
                s = (if sg \<and> m \<noteq> 0 then str ''-'' else [])
            in if ge_1e21 m e then Inr (s @ Number_toString (Finite False m e))
               else
                 let n = fixed_integer f m e;
                     m0 = digits_of n;
                     m1 = (if f \<noteq> 0 then
                             (let k = length m0;
                                  z = (if k \<le> f then replicate (f + 1 - k) (0x30 :: code_unit) else []);
                                  m2 = z @ m0;
                                  k2 = length m2
                              in take (k2 - f) m2 @ str ''.'' @ drop (k2 - f) m2)
                           else m0)
                 in Inr (s @ m1))"

subsection \<open>formatCurrency\<close>

text \<open>
  \<^verbatim>\<open>return GLYPH + parseFloat(amount).toFixed(2);\<close>
  An exception of \<open>toFixed\<close> would leave the function; the concatenation cannot fail.
\<close>

definition formatCurrency :: "jsvalue \<Rightarrow> error + jsstring" where
  "formatCurrency amount =
     (case toFixed 2 (parseFloat amount) of
        Inl err \<Rightarrow> Inl err
      | Inr digits \<Rightarrow> Inr ([rupee] @ digits))"

subsection \<open>The specification's notions\<close>

text \<open>
  These follow the specification's words, not the code: "the value rendered with exactly two
  digits after the decimal point" is the text of \<open>n\<close> hundredths, \<open>two_decimals n\<close>, and "a
  valid two-decimal numeric string" is an optional minus sign, one or more digits, a point
  and two digits, \<open>is_two_decimal\<close>. The theorems compare what \<open>formatCurrency\<close> returns with
  them.
\<close>

definition two_decimals :: "nat \<Rightarrow> jsstring" where
  "two_decimals n = digits_of (n div 100) @ str ''.'' @ [digit_char (n div 10 mod 10), digit_char (n mod 10)]"

definition is_two_decimal :: "jsstring \<Rightarrow> bool" where
  "is_two_decimal cs =
     (let body = (case cs of [] \<Rightarrow> [] | c # r \<Rightarrow> if c = 0x2D then r else cs);
          ip = takeWhile is_digit body;
          r = dropWhile is_digit body
      in ip \<noteq> [] \<and> (case r of [d, a, b] \<Rightarrow> d = 0x2E \<and> is_digit a \<and> is_digit b | _ \<Rightarrow> False))"

text \<open>
  A remainder is non-numeric when its first character cannot continue a decimal literal: it
  is no digit, point or exponent indicator.
\<close>

definition continues_number :: "code_unit \<Rightarrow> bool" where
  "continues_number c = (is_digit c \<or> c = 0x2E \<or> c = 0x65 \<or> c = 0x45)"

text \<open>The finite Numbers, and the negative ones (\<open>-0\<close> is not negative).\<close>

fun is_finite :: "number \<Rightarrow> bool" where
  "is_finite (Finite sg m e) = True"
| "is_finite _ = False"

fun is_negative :: "number \<Rightarrow> bool" where
  "is_negative NaN = False"
| "is_negative (Infinity sg) = sg"
| "is_negative (Finite sg m e) = (sg \<and> 0 < m)"

fun negate :: "number \<Rightarrow> number" where
  "negate NaN = NaN"
| "negate (Infinity sg) = Infinity (\<not> sg)"
| "negate (Finite sg m e) = Finite (\<not> sg) m e"

section \<open>The page initializer\<close>

text \<open>
  \<^verbatim>\<open>
  document.addEventListener('DOMContentLoaded', function () {
      const alerts = document.querySelectorAll('.alert');
      alerts.forEach(function (alert) {
          setTimeout(function () {
              var bsAlert = new bootstrap.Alert(alert);
              bsAlert.close();
          }, 5000);
      });
      var tooltipTriggerList = [].slice.call(document.querySelectorAll('[data-bs-toggle="tooltip"]'))
      var tooltipList = tooltipTriggerList.map(function (tooltipTriggerEl) {
          return new bootstrap.Tooltip(tooltipTriggerEl)
      });
  });
  \<close>
  The handler talks to three parts of its host: the document (\<open>querySelectorAll\<close>), the
  timers (\<open>setTimeout\<close>) and the Bootstrap library (\<open>new bootstrap.Alert\<close>, \<open>close\<close>,
  \<open>new bootstrap.Tooltip\<close>). The page state below holds what the handler can read or
  change there; time is a clock in milliseconds.
\<close>

subsection \<open>The document\<close>

text \<open>An element is a node of the document (its identity) with its classes and attributes.\<close>

type_synonym node = nat

record element =
  node_ref :: node
  class_list :: "string list"
  attributes :: "(string \<times> string) list"

text \<open>The two selectors of the script: \<open>.alert\<close> and \<open>[data-bs-toggle="tooltip"]\<close>.\<close>

datatype selector = ByClass string | ByAttribute string string

fun matches :: "selector \<Rightarrow> element \<Rightarrow> bool" where
  "matches (ByClass c) el = (c \<in> set (class_list el))"
| "matches (ByAttribute a v) el = (map_of (attributes el) a = Some v)"

subsection \<open>Timers and the library's objects\<close>

text \<open>
  The only function the script hands to \<open>setTimeout\<close> is the closure over one alert:
  \<^verbatim>\<open>function () { var bsAlert = new bootstrap.Alert(alert); bsAlert.close(); }\<close>
\<close>

datatype callback = CloseAlert node

record timer =
  timer_id :: nat
  fires_at :: nat
  action :: callback

text \<open>An object of the library, bound to the element it was constructed with.\<close>

datatype widget = AlertWidget node | TooltipWidget node

text \<open>
  \<open>objects\<close> is the store of the library's objects: a reference to an object is its index.
  \<open>dismissals\<close> records every call of \<open>close\<close>: the time, the timer that ran it, the element.
\<close>

record page =
  document :: "element list"
  clock :: nat
  timers :: "timer list"
  next_timer :: nat
  objects :: "widget list"
  dismissals :: "(nat \<times> nat \<times> node) list"

subsection \<open>The host's operations\<close>

text \<open>\<open>querySelectorAll\<close>: the matching elements, in document order, as a static list.\<close>

definition querySelectorAll :: "selector \<Rightarrow> page \<Rightarrow> node list" where
  "querySelectorAll sel s = map node_ref (filter (matches sel) (document s))"

text \<open>\<open>setTimeout(f, delay)\<close>: one new timer, due \<open>delay\<close> ms from now.\<close>

definition setTimeout :: "callback \<Rightarrow> nat \<Rightarrow> page \<Rightarrow> page" where
  "setTimeout f delay s =
     s\<lparr>timers := timers s @ [\<lparr>timer_id = next_timer s, fires_at = clock s + delay, action = f\<rparr>],
       next_timer := Suc (next_timer s)\<rparr>"

text \<open>\<open>new bootstrap.Tooltip(el)\<close> and \<open>new bootstrap.Alert(el)\<close>: a new object, and its reference.\<close>

definition new_object :: "widget \<Rightarrow> page \<Rightarrow> nat \<times> page" where
  "new_object w s = (length (objects s), s\<lparr>objects := objects s @ [w]\<rparr>)"

subsection \<open>The handler\<close>

text \<open>\<open>alerts.forEach(function (alert) { setTimeout(..., 5000); })\<close>\<close>

fun forEach_alert :: "node list \<Rightarrow> page \<Rightarrow> page" where
  "forEach_alert [] s = s"
| "forEach_alert (alert # rest) s = forEach_alert rest (setTimeout (CloseAlert alert) 5000 s)"

text \<open>\<open>tooltipTriggerList.map(function (tooltipTriggerEl) { return new bootstrap.Tooltip(tooltipTriggerEl) })\<close>\<close>

fun map_Tooltip :: "node list \<Rightarrow> page \<Rightarrow> nat list \<times> page" where
  "map_Tooltip [] s = ([], s)"
| "map_Tooltip (tooltipTriggerEl # rest) s =
     (let (r, s1) = new_object (TooltipWidget tooltipTriggerEl) s;
          (rs, s2) = map_Tooltip rest s1
      in (r # rs, s2))"

text \<open>The handler's local variables when it returns.\<close>

record locals =
  alerts :: "node list"
  tooltipTriggerList :: "node list"
  tooltipList :: "nat list"

definition on_DOMContentLoaded :: "page \<Rightarrow> locals \<times> page" where
  "on_DOMContentLoaded s =
     (let alerts = querySelectorAll (ByClass ''alert'') s;
          s1 = forEach_alert alerts s;
          tooltipTriggerList = querySelectorAll (ByAttribute ''data-bs-toggle'' ''tooltip'') s1;
          (tooltipList, s2) = map_Tooltip tooltipTriggerList s1
      in (\<lparr>alerts = alerts, tooltipTriggerList = tooltipTriggerList, tooltipList = tooltipList\<rparr>, s2))"

subsection \<open>What happens after the handler\<close>

text \<open>
  Once the handler has returned, the page changes by the passing of time, by a due timer
  running its callback (once: \<open>setTimeout\<close> timers are one-shot), and by other scripts
  inserting elements. \<open>apply_event\<close> is \<open>None\<close> where the host cannot do the step: a timer
  that is not pending or not yet due does not run.
\<close>

datatype event = Elapse nat | Fire nat | Insert element

fun run_callback :: "timer \<Rightarrow> page \<Rightarrow> page" where
  "run_callback t s =
     (case action t of
        CloseAlert alert \<Rightarrow>
          (let (bsAlert, s1) = new_object (AlertWidget alert) s
           in s1\<lparr>dismissals := dismissals s1 @ [(clock s1, timer_id t, alert)]\<rparr>))"

fun apply_event :: "event \<Rightarrow> page \<Rightarrow> page option" where
  "apply_event (Elapse d) s = Some (s\<lparr>clock := clock s + d\<rparr>)"
| "apply_event (Fire i) s =
     (case find (\<lambda>t. timer_id t = i) (timers s) of
        None \<Rightarrow> None
      | Some t \<Rightarrow>
          if fires_at t \<le> clock s
          then Some (run_callback t (s\<lparr>timers := filter (\<lambda>u. timer_id u \<noteq> i) (timers s)\<rparr>))
          else None)"
| "apply_event (Insert el) s =
     (if node_ref el \<in> node_ref ` set (document s) then None
      else Some (s\<lparr>document := document s @ [el]\<rparr>))"

fun run :: "event list \<Rightarrow> page \<Rightarrow> page option" where
  "run [] s = Some s"
| "run (ev # evs) s = (case apply_event ev s of None \<Rightarrow> None | Some s1 \<Rightarrow> run evs s1)"

text \<open>
  The event loop at rest: every timer that is due has run. \<open>run_due\<close> runs the due timers in
  the order in which they were set.
\<close>

fun fire_all :: "nat list \<Rightarrow> page \<Rightarrow> page" where
  "fire_all [] s = s"
| "fire_all (i # rest) s =
     (case apply_event (Fire i) s of None \<Rightarrow> fire_all rest s | Some s1 \<Rightarrow> fire_all rest s1)"

definition run_due :: "page \<Rightarrow> page" where
  "run_due s = fire_all (map timer_id (filter (\<lambda>t. fires_at t \<le> clock s) (timers s))) s"

text \<open>
  Timer ids are handed out in order: every pending timer, and every timer that has run,
  has an id below the next one.
\<close>

definition page_wf :: "page \<Rightarrow> bool" where
  "page_wf s =
     (list_all (\<lambda>t. timer_id t < next_timer s) (timers s)
      \<and> list_all (\<lambda>(ms, j, alert). j < next_timer s) (dismissals s))"

text \<open>The pending timers of id \<open>i\<close>, and the calls of \<open>close\<close> that timer \<open>i\<close> has made.\<close>

definition pending :: "nat \<Rightarrow> page \<Rightarrow> timer list" where
  "pending i s = filter (\<lambda>t. timer_id t = i) (timers s)"

definition dismissals_by :: "nat \<Rightarrow> page \<Rightarrow> (nat \<times> nat \<times> node) list" where
  "dismissals_by i s = filter (\<lambda>(ms, j, alert). j = i) (dismissals s)"

text \<open>The timer that the handler, run in state \<open>s0\<close>, creates for the \<open>i\<close>-th of the alerts \<open>as\<close>.\<close>

definition own_timer :: "page \<Rightarrow> node list \<Rightarrow> nat \<Rightarrow> timer" where
  "own_timer s0 as i =
     \<lparr>timer_id = next_timer s0 + i, fires_at = clock s0 + 5000, action = CloseAlert (as ! i)\<rparr>"

text \<open>
  In state \<open>s\<close>, that timer is either pending and has dismissed nothing, or it is gone and
  has dismissed its alert once, not before its 5000 ms were over.
\<close>

definition dismissed_once :: "page \<Rightarrow> node list \<Rightarrow> nat \<Rightarrow> page \<Rightarrow> bool" where
  "dismissed_once s0 as i s =
     (pending (next_timer s0 + i) s = []
      \<and> (case dismissals_by (next_timer s0 + i) s of
            [(ms, j, alert)] \<Rightarrow> clock s0 + 5000 \<le> ms \<and> alert = as ! i
          | _ \<Rightarrow> False))"

definition scheduled_once :: "page \<Rightarrow> node list \<Rightarrow> nat \<Rightarrow> page \<Rightarrow> bool" where
  "scheduled_once s0 as i s =
     ((pending (next_timer s0 + i) s = [own_timer s0 as i] \<and> dismissals_by (next_timer s0 + i) s = [])
      \<or> dismissed_once s0 as i s)"

subsection \<open>Calling formatCurrency from the page\<close>

text \<open>
  A call of \<open>formatCurrency\<close> runs in a page, and each step of its body is an operation of
  the host in that page, which returns a value or throws, together with the page after it.
  The argument of a call is any value of the language: a primitive value, a Symbol or an
  object. \<open>parseFloat\<close> begins by converting its argument with ToString. On a primitive
  value that is the function \<open>ToString\<close> above; on a Symbol it throws a TypeError; on an
  object it runs the object's own conversion (ToPrimitive with hint string, that is the
  object's \<open>Symbol.toPrimitive\<close>, \<open>toString\<close> or \<open>valueOf\<close>, then ToString of the result),
  which is code of the caller's: it may read and change the page, and it may throw. An
  object is represented by that conversion.
\<close>

datatype thrown = HostError error | CallerThrown jsvalue

datatype argument =
    Primitive jsvalue
  | SymbolValue
  | ObjectValue "page \<Rightarrow> (thrown + jsstring) \<times> page"

text \<open>Sequencing: an exception ends the evaluation, a value goes on to the next step.\<close>

definition and_then ::
  "(thrown + 'a) \<times> page \<Rightarrow> ('a \<Rightarrow> page \<Rightarrow> (thrown + 'b) \<times> page) \<Rightarrow> (thrown + 'b) \<times> page" where
  "and_then r f = (case r of (Inl e, s) \<Rightarrow> (Inl e, s) | (Inr v, s) \<Rightarrow> f v s)"

fun ToString_in :: "argument \<Rightarrow> page \<Rightarrow> (thrown + jsstring) \<times> page" where
  "ToString_in (Primitive v) s = (Inr (ToString v), s)"
| "ToString_in SymbolValue s = (Inl (HostError TypeError), s)"
| "ToString_in (ObjectValue conversion) s = conversion s"

text \<open>\<open>parseFloat(string)\<close>: \<open>inputString\<close> is \<open>? ToString(string)\<close>, the rest is as above.\<close>

definition parseFloat_in :: "argument \<Rightarrow> page \<Rightarrow> (thrown + number) \<times> page" where
  "parseFloat_in string s =
     and_then (ToString_in string s) (\<lambda>inputString s1. (Inr (parseFloat (JSString inputString)), s1))"

text \<open>\<open>x.toFixed(fractionDigits)\<close> on a Number: the text, or the RangeError thrown.\<close>

definition toFixed_in :: "int \<Rightarrow> number \<Rightarrow> page \<Rightarrow> (thrown + jsstring) \<times> page" where
  "toFixed_in fractionDigits x s =
     (case toFixed fractionDigits x of Inl err \<Rightarrow> (Inl (HostError err), s) | Inr t \<Rightarrow> (Inr t, s))"

text \<open>
  \<^verbatim>\<open>return GLYPH + parseFloat(amount).toFixed(2);\<close>
  The operands of \<open>+\<close> are two strings, which it concatenates.
\<close>

definition call_formatCurrency :: "argument \<Rightarrow> page \<Rightarrow> (thrown + jsstring) \<times> page" where
  "call_formatCurrency amount s =
     and_then (parseFloat_in amount s) (\<lambda>parsed s1.
       and_then (toFixed_in 2 parsed s1) (\<lambda>digits s2.
         (Inr ([rupee] @ digits), s2)))"

subsection \<open>The elements the handler acts on\<close>

text \<open>
  The elements that the handler, run in state \<open>s0\<close>, has acted on by state \<open>s\<close>: the targets
  of the timers set since then, the elements those timers have dismissed, and the elements
  of the tooltip objects constructed since then.
\<close>

fun callback_target :: "callback \<Rightarrow> node" where
  "callback_target (CloseAlert alert) = alert"

fun tooltip_target :: "widget \<Rightarrow> node list" where
  "tooltip_target (TooltipWidget el) = [el]"
| "tooltip_target (AlertWidget el) = []"

definition acted_on :: "page \<Rightarrow> page \<Rightarrow> node list" where
  "acted_on s0 s =
     map (\<lambda>t. callback_target (action t)) (filter (\<lambda>t. next_timer s0 \<le> timer_id t) (timers s))
     @ map (\<lambda>(ms, j, alert). alert) (filter (\<lambda>(ms, j, alert). next_timer s0 \<le> j) (dismissals s))
     @ concat (map tooltip_target (drop (length (objects s0)) (objects s)))"

text \<open>A page for the examples: two alerts and a button with a tooltip, at time 100.\<close>

definition example_page :: page where
  "example_page =
     \<lparr>document =
        [\<lparr>node_ref = 1, class_list = [''alert'', ''alert-success''], attributes = []\<rparr>,
         \<lparr>node_ref = 2, class_list = [''btn''],
          attributes = [(''data-bs-toggle'', ''tooltip''), (''title'', ''Book now'')]\<rparr>,
         \<lparr>node_ref = 3, class_list = [''alert''], attributes = []\<rparr>],
      clock = 100, timers = [], next_timer = 0, objects = [], dismissals = []\<rparr>"

text \<open>An alert that another script inserts later.\<close>

definition late_alert :: element where
  "late_alert = \<lparr>node_ref = 4, class_list = [''alert''], attributes = [(''data-bs-toggle'', ''tooltip'')]\<rparr>"

text \<open>
  An object for the examples: its \<open>toString\<close> returns the time and sets a timer, as in
  \<^verbatim>\<open>{ toString() { setTimeout(close, 0); return String(now()); } }\<close>
\<close>

definition stamping :: argument where
  "stamping = ObjectValue (\<lambda>s. (Inr (digits_of (clock s)), setTimeout (CloseAlert 1) 0 s))"

text \<open>The three parts of \<open>acted_on\<close>, as sets.\<close>

definition timer_targets :: "page \<Rightarrow> page \<Rightarrow> node set" where
  "timer_targets s0 s = (\<lambda>t. callback_target (action t)) ` {t \<in> set (timers s). next_timer s0 \<le> timer_id t}"

definition dismissed_targets :: "page \<Rightarrow> page \<Rightarrow> node set" where
  "dismissed_targets s0 s = {a. \<exists>ms j. (ms, j, a) \<in> set (dismissals s) \<and> next_timer s0 \<le> j}"

definition tooltip_targets :: "page \<Rightarrow> page \<Rightarrow> node set" where
  "tooltip_targets s0 s = (\<Union>w \<in> set (drop (length (objects s0)) (objects s)). set (tooltip_target w))"

section \<open>Properties of formatCurrency\<close>

subsection \<open>Digits\<close>

lemma unat_digit_char: "d < 10 \<Longrightarrow> unat (digit_char d) = 48 + d"
  by (simp only: digit_char_def unat_of_nat) simp

lemma is_digit_digit_char: "d < 10 \<Longrightarrow> is_digit (digit_char d)"
  by (simp add: is_digit_def word_le_nat_alt unat_digit_char)

lemma digit_val_digit_char: "d < 10 \<Longrightarrow> digit_val (digit_char d) = d"
  by (simp add: digit_val_def unat_digit_char)

lemma digits_of_not_Nil: "digits_of n \<noteq> []"
  by (subst digits_of.simps) simp

lemma digits_of_all_digits: "list_all is_digit (digits_of n)"
proof (induction n rule: digits_of.induct)
  case (1 n)
  show ?case
  proof (cases "n < 10")
    case True
    then show ?thesis by (subst digits_of.simps) (simp add: is_digit_digit_char)
  next
    case False
    with 1 show ?thesis by (subst digits_of.simps) (simp add: is_digit_digit_char)
  qed
qed

lemma digits_val_append: "digits_val (xs @ ys) = digits_val xs * 10 ^ length ys + digits_val ys"
proof -
  have "foldl (\<lambda>a c. 10 * a + digit_val c) a ys = a * 10 ^ length ys + foldl (\<lambda>a c. 10 * a + digit_val c) 0 ys" for a
  proof (induction ys arbitrary: a rule: rev_induct)
    case Nil
    show ?case by simp
  next
    case (snoc y ys)
    show ?case by (simp add: snoc.IH [of a] distrib_left mult.assoc)
  qed
  from this [of "foldl (\<lambda>a c. 10 * a + digit_val c) 0 xs"] show ?thesis
    by (simp add: digits_val_def)
qed

lemma digits_val_single: "digits_val [c] = digit_val c"
  by (simp add: digits_val_def)

lemma digits_val_digits_of: "digits_val (digits_of n) = n"
proof (induction n rule: digits_of.induct)
  case (1 n)
  show ?case
  proof (cases "n < 10")
    case True
    then show ?thesis by (subst digits_of.simps) (simp add: digits_val_single digit_val_digit_char)
  next
    case False
    with 1 show ?thesis
      by (subst digits_of.simps) (simp add: digits_val_append digits_val_single digit_val_digit_char)
  qed
qed

lemma length_digits_of_bounds: "0 < n \<Longrightarrow> 10 ^ (length (digits_of n) - 1) \<le> n \<and> n < 10 ^ length (digits_of n)"
proof (induction n rule: digits_of.induct)
  case (1 n)
  show ?case
  proof (cases "n < 10")
    case True
    with 1 show ?thesis by (subst (1 2) digits_of.simps) simp
  next
    case False
    then have pos: "0 < n div 10" by simp
    from 1(1) [OF False pos] have lo: "10 ^ (length (digits_of (n div 10)) - 1) \<le> n div 10"
      and hi: "n div 10 < 10 ^ length (digits_of (n div 10))" by simp_all
    have len: "length (digits_of n) = Suc (length (digits_of (n div 10)))"
      using False by (subst digits_of.simps) simp
    have l0: "0 < length (digits_of (n div 10))" using digits_of_not_Nil by simp
    have "10 ^ (length (digits_of n) - 1) = 10 * 10 ^ (length (digits_of (n div 10)) - 1)"
      using l0 by (simp add: len flip: power_Suc)
    also have "\<dots> \<le> 10 * (n div 10)" using lo by simp
    also have "\<dots> \<le> n" by simp
    finally have A: "10 ^ (length (digits_of n) - 1) \<le> n" .
    have "n < 10 * (n div 10) + 10" by presburger
    also have "\<dots> \<le> 10 * 10 ^ length (digits_of (n div 10))" using hi by simp
    finally have B: "n < 10 ^ length (digits_of n)" by (simp add: len)
    from A B show ?thesis by simp
  qed
qed

subsection \<open>toFixed with two fraction digits\<close>

lemma digits_of_two_more:
  assumes "100 \<le> n"
  shows "digits_of n = digits_of (n div 100) @ [digit_char (n div 10 mod 10), digit_char (n mod 10)]"
proof -
  have a: "digits_of n = digits_of (n div 10) @ [digit_char (n mod 10)]"
    using assms by (subst digits_of.simps) simp
  have "\<not> n div 10 < 10" using assms by linarith
  then have b: "digits_of (n div 10) = digits_of (n div 10 div 10) @ [digit_char (n div 10 mod 10)]"
    by (subst digits_of.simps) simp
  have c: "n div 10 div 10 = n div 100" by (simp add: div_mult2_eq [symmetric])
  show ?thesis by (simp add: a b c)
qed

lemma toFixed_2_finite:
  assumes "\<not> ge_1e21 m e"
  shows "toFixed 2 (Finite sg m e) =
           Inr ((if sg \<and> m \<noteq> 0 then str ''-'' else []) @ two_decimals (fixed_integer 2 m e))"
proof -
  define n where "n = fixed_integer 2 m e"
  have render: "(let m0 = digits_of n; k = length m0;
                   z = (if k \<le> 2 then replicate (2 + 1 - k) (0x30 :: code_unit) else []);
                   m2 = z @ m0; k2 = length m2
               in take (k2 - 2) m2 @ str ''.'' @ drop (k2 - 2) m2) = two_decimals n"
  proof -
    consider "n < 10" | "10 \<le> n" "n < 100" | "100 \<le> n" by linarith
    then show ?thesis
    proof cases
      case 1
      then have "digits_of n = [digit_char n]" by (subst digits_of.simps) simp
      moreover have "digits_of (n div 100) = [digit_char 0]" using 1 by (subst digits_of.simps) simp
      ultimately show ?thesis using 1
        by (simp add: two_decimals_def Let_def digit_char_def numeral_3_eq_3)
    next
      case 2
      then have "digits_of n = digits_of (n div 10) @ [digit_char (n mod 10)]"
        by (subst digits_of.simps) simp
      moreover have "n div 10 < 10" using 2 by linarith
      then have "digits_of (n div 10) = [digit_char (n div 10)]"
        by (subst digits_of.simps) simp
      moreover have "digits_of (n div 100) = [digit_char 0]" using 2 by (subst digits_of.simps) simp
      ultimately show ?thesis using 2
        by (simp add: two_decimals_def Let_def digit_char_def)
    next
      case 3
      have "2 \<le> length (digits_of (n div 100)) + 2" by simp
      then show ?thesis
        using digits_of_not_Nil [of "n div 100"]
        by (simp add: digits_of_two_more [OF 3] two_decimals_def Let_def)
    qed
  qed
  show ?thesis
    using assms render by (simp add: toFixed_def Let_def n_def)
qed

lemma powi_neg_nat: "e < 0 \<Longrightarrow> (2::real) powi e = 1 / 2 ^ nat (- e)"
  by (simp add: power_int_def power_one_over)

lemma powi_nonneg_nat: "0 \<le> e \<Longrightarrow> (2::real) powi e = 2 ^ nat e"
  by (simp add: power_int_def)

lemma ge_1e21_iff: "ge_1e21 m e \<longleftrightarrow> 10 ^ 21 \<le> real m * 2 powi e"
proof (cases "0 \<le> e")
  case True
  have "(10 ^ 21 \<le> m * 2 ^ nat e) = ((10::real) ^ 21 \<le> real (m * 2 ^ nat e))"
    by (metis of_nat_le_iff of_nat_numeral of_nat_power)
  then show ?thesis using True by (simp add: ge_1e21_def powi_nonneg_nat)
next
  case False
  have "(10 ^ 21 * 2 ^ nat (- e) \<le> m) = (real (10 ^ 21 * 2 ^ nat (- e)) \<le> real m)"
    by (simp only: of_nat_le_iff)
  then show ?thesis using False by (simp add: ge_1e21_def powi_neg_nat field_simps)
qed

lemma fixed_integer_floor: "int (fixed_integer f m e) = \<lfloor>real m * 2 powi e * 10 ^ f + 1 / 2\<rfloor>"
proof (cases "0 \<le> e")
  case True
  have "real m * 2 ^ nat e * 10 ^ f + 1 / 2 = of_int (int (m * 2 ^ nat e * 10 ^ f)) + 1 / 2"
    by simp
  also have "\<lfloor>\<dots>\<rfloor> = int (m * 2 ^ nat e * 10 ^ f)"
    by (rule floor_unique) simp_all
  finally show ?thesis using True by (simp add: fixed_integer_def powi_nonneg_nat)
next
  case False
  define k where "k = nat (- e)"
  have "real m * (1 / 2 ^ k) * 10 ^ f + 1 / 2 = real (2 * (m * 10 ^ f) + 2 ^ k) / real (2 * 2 ^ k)"
    by (simp add: field_simps)
  also have "\<lfloor>\<dots>\<rfloor> = int ((2 * (m * 10 ^ f) + 2 ^ k) div (2 * 2 ^ k))"
    by (rule floor_divide_of_nat_eq)
  finally show ?thesis using False by (simp add: fixed_integer_def powi_neg_nat k_def)
qed

lemma takeWhile_digits_then: "list_all is_digit ds \<Longrightarrow> \<not> is_digit c \<Longrightarrow> takeWhile is_digit (ds @ c # r) = ds"
  by (induction ds) auto

lemma dropWhile_digits_then: "list_all is_digit ds \<Longrightarrow> \<not> is_digit c \<Longrightarrow> dropWhile is_digit (ds @ c # r) = c # r"
  by (induction ds) auto

lemma is_two_decimal_two_decimals: "is_two_decimal ((if neg then str ''-'' else []) @ two_decimals n)"
proof -
  have nd: "\<not> is_digit 0x2E" "\<not> is_digit 0x2D" by (simp_all add: is_digit_def)
  have hdd: "hd (digits_of (n div 100)) \<noteq> 0x2D"
    using digits_of_all_digits [of "n div 100"] digits_of_not_Nil [of "n div 100"] nd(2)
    by (cases "digits_of (n div 100)") auto
  have body: "(case two_decimals n of [] \<Rightarrow> [] | c # r \<Rightarrow> if c = 0x2D then r else two_decimals n) = two_decimals n"
    using hdd digits_of_not_Nil [of "n div 100"]
    by (cases "digits_of (n div 100)") (auto simp: two_decimals_def)
  have td: "two_decimals n = digits_of (n div 100) @ 0x2E # [digit_char (n div 10 mod 10), digit_char (n mod 10)]"
    by (simp add: two_decimals_def str_def)
  have core: "takeWhile is_digit (two_decimals n) \<noteq> [] \<and>
      (case dropWhile is_digit (two_decimals n) of [d, a, b] \<Rightarrow> d = 0x2E \<and> is_digit a \<and> is_digit b | _ \<Rightarrow> False)"
    unfolding td
    by (simp add: takeWhile_digits_then dropWhile_digits_then digits_of_all_digits nd digits_of_not_Nil
        is_digit_digit_char)
  show ?thesis
  proof (cases neg)
    case True
    then show ?thesis using core by (simp add: is_two_decimal_def str_def Let_def)
  next
    case False
    then show ?thesis using core body by (simp add: is_two_decimal_def Let_def)
  qed
qed

lemmas eval_round = round_decimal_def round_ratio_def floor_log2_def round_half_even_def bitlen.simps Let_def
lemmas eval_chars = str_def rupee_def is_digit_def digit_val_def digit_char_def digits_val_def
lemmas eval_parse = TrimString_start_def is_StrWhiteSpaceChar_def longest_prefix_def
  is_StrDecimalLiteral_def StrDecimalLiteral_def StrUnsignedDecimalLiteral_def ExponentPart_def SignedInteger_def
lemmas eval_toString = Number_toString.simps(3) number_digits_def format_digits_def shortest_digits.simps digit_candidate_def nearer_lo_def scaled_floor_def
  decimal_exponent_def lead_zeros.simps digits_of.simps
lemmas eval_toFixed = toFixed_def ge_1e21_def fixed_integer_def Let_def digits_of.simps

lemma abs_valof_Finite: "\<bar>valof (Finite sg m e)\<bar> = real m * 2 powi e"
  by (simp add: abs_mult)

lemma valof_neg_iff: "valof (Finite sg m e) < 0 \<longleftrightarrow> sg \<and> m \<noteq> 0"
proof -
  have "0 < (2::real) powi e" by simp
  then show ?thesis by (auto simp: mult_less_0_iff zero_less_mult_iff not_less order.asym)
qed

subsection \<open>The examples of the specification\<close>

lemma double_9999: "round_decimal False 9999 (- 3) = Finite False 5628936584259699 (- 49)"
  by (simp add: eval_round)

lemma Number_toString_9999: "Number_toString (Finite False 5628936584259699 (- 49)) = str ''9.999''"
  by (simp add: eval_toString eval_round eval_chars)

lemma parseFloat_9999:
  "parseFloat (JSNumber (Finite False 5628936584259699 (- 49))) = Finite False 5628936584259699 (- 49)"
  unfolding parseFloat_def by (simp add: Number_toString_9999) (simp add: eval_parse eval_chars eval_round)

text \<open>
  Claim C2. The Number literal \<open>9.999\<close> denotes the double \<open>5628936584259699 * 2^-49\<close>, and
  \<open>formatCurrency(9.999)\<close> is the glyph followed by \<open>10.00\<close>: the rounding at the second
  decimal carries into the integer part.
\<close>

theorem formatCurrency_9999:
  "round_decimal False 9999 (- 3) = Finite False 5628936584259699 (- 49)
   \<and> formatCurrency (JSNumber (Finite False 5628936584259699 (- 49))) = Inr (rupee # str ''10.00'')"
proof -
  have "formatCurrency (JSNumber (Finite False 5628936584259699 (- 49))) = Inr (rupee # str ''10.00'')"
    unfolding formatCurrency_def parseFloat_9999 by (simp add: eval_toFixed eval_chars)
  with double_9999 show ?thesis by simp
qed

lemma parseFloat_text_42: "parseFloat (JSString (str ''42'')) = Finite False 5910974510923776 (- 47)"
  by (simp add: parseFloat_def eval_parse eval_chars eval_round)

text \<open>
  Claim C3. The text \<open>"42"\<close> is a decimal literal of value 42, \<open>parseFloat\<close> makes the Number
  42 of it, and \<open>formatCurrency("42")\<close> is the glyph followed by \<open>42.00\<close>.
\<close>

theorem formatCurrency_text_42:
  "StrDecimalLiteral (str ''42'') = Some (LitDecimal False 42 0)
   \<and> parseFloat (JSString (str ''42'')) = Finite False 5910974510923776 (- 47)
   \<and> valof (Finite False 5910974510923776 (- 47)) = 42
   \<and> formatCurrency (JSString (str ''42'')) = Inr (rupee # str ''42.00'')"
proof -
  have "StrDecimalLiteral (str ''42'') = Some (LitDecimal False 42 0)"
    by (simp add: eval_parse eval_chars)
  moreover have "valof (Finite False 5910974510923776 (- 47)) = 42"
    by (simp add: powi_neg_nat)
  moreover have "formatCurrency (JSString (str ''42'')) = Inr (rupee # str ''42.00'')"
    unfolding formatCurrency_def parseFloat_text_42 by (simp add: eval_toFixed eval_chars)
  ultimately show ?thesis using parseFloat_text_42 by simp
qed

text \<open>
  Claim C4. When no prefix of the amount's text (after its leading white space) is a decimal
  literal, as for \<open>"abc"\<close>, \<open>parseFloat\<close> yields NaN and \<open>formatCurrency\<close> raises no error:
  it returns the glyph followed by \<open>NaN\<close>, which is not a two-decimal numeric string.
\<close>

theorem formatCurrency_not_a_number:
  assumes "longest_prefix is_StrDecimalLiteral (TrimString_start (ToString amount)) = None"
  shows "parseFloat amount = NaN
       \<and> formatCurrency amount = Inr (rupee # str ''NaN'')
       \<and> \<not> is_two_decimal (str ''NaN'')"
proof -
  have p: "parseFloat amount = NaN" using assms by (simp add: parseFloat_def)
  have "formatCurrency amount = Inr (rupee # str ''NaN'')"
    by (simp add: formatCurrency_def p toFixed_def)
  moreover have "\<not> is_two_decimal (str ''NaN'')"
    by (simp add: is_two_decimal_def eval_chars)
  ultimately show ?thesis using p by simp
qed

theorem formatCurrency_not_a_number_witness:
  "formatCurrency (JSString (str ''abc'')) = Inr (rupee # str ''NaN'')"
proof -
  have "longest_prefix is_StrDecimalLiteral (TrimString_start (ToString (JSString (str ''abc'')))) = None"
    by (simp add: eval_parse eval_chars)
  from formatCurrency_not_a_number [OF this] show ?thesis by simp
qed

subsection \<open>The numeric prefix\<close>

lemma longest_prefix_upto_Some:
  "longest_prefix_upto P cs n = Some p \<Longrightarrow>
     \<exists>k\<le>n. p = take k cs \<and> P p \<and> (\<forall>j. k < j \<and> j \<le> n \<longrightarrow> \<not> P (take j cs))"
proof (induction n)
  case 0
  then show ?case by (auto split: if_splits)
next
  case (Suc n)
  show ?case
  proof (cases "P (take (Suc n) cs)")
    case True
    with Suc.prems have "p = take (Suc n) cs" by simp
    with True show ?thesis by (intro exI [of _ "Suc n"]) auto
  next
    case False
    with Suc.prems have "longest_prefix_upto P cs n = Some p" by simp
    from Suc.IH [OF this] obtain k where k: "k \<le> n" "p = take k cs" "P p"
      "\<forall>j. k < j \<and> j \<le> n \<longrightarrow> \<not> P (take j cs)" by blast
    have "\<not> P (take j cs)" if "k < j" "j \<le> Suc n" for j
      using that k(4) False by (cases "j = Suc n") auto
    with k show ?thesis by (intro exI [of _ k]) auto
  qed
qed

lemma longest_prefix_upto_None:
  "longest_prefix_upto P cs n = None \<Longrightarrow> j \<le> n \<Longrightarrow> \<not> P (take j cs)"
proof (induction n)
  case 0
  then show ?case by (auto split: if_splits)
next
  case (Suc n)
  then show ?case by (cases "j = Suc n") (auto split: if_splits)
qed

lemma longest_prefix_Some:
  assumes "longest_prefix P cs = Some p"
  shows "(\<exists>r. cs = p @ r) \<and> P p \<and> (\<forall>q r. cs = q @ r \<and> P q \<longrightarrow> length q \<le> length p)"
proof -
  from longest_prefix_upto_Some [OF assms [unfolded longest_prefix_def]]
  obtain k where k: "k \<le> length cs" "p = take k cs" "P p"
    "\<forall>j. k < j \<and> j \<le> length cs \<longrightarrow> \<not> P (take j cs)" by blast
  have "cs = p @ drop k cs" by (simp add: k(2))
  moreover have "length q \<le> length p" if "cs = q @ r" "P q" for q r
  proof (rule ccontr)
    assume "\<not> length q \<le> length p"
    then have "k < length q" using k(1,2) by simp
    moreover have "length q \<le> length cs" "take (length q) cs = q" using that(1) by simp_all
    ultimately show False using k(4) that(2) by auto
  qed
  ultimately show ?thesis using k(3) by blast
qed

lemma longest_prefix_None:
  "longest_prefix P cs = None \<longleftrightarrow> (\<forall>q r. cs = q @ r \<longrightarrow> \<not> P q)"
proof
  assume n: "longest_prefix P cs = None"
  show "\<forall>q r. cs = q @ r \<longrightarrow> \<not> P q"
  proof (intro allI impI)
    fix q r assume "cs = q @ r"
    then have "length q \<le> length cs" "take (length q) cs = q" by simp_all
    with longest_prefix_upto_None [OF n [unfolded longest_prefix_def], of "length q"]
    show "\<not> P q" by simp
  qed
next
  assume a: "\<forall>q r. cs = q @ r \<longrightarrow> \<not> P q"
  show "longest_prefix P cs = None"
  proof (rule ccontr)
    assume "longest_prefix P cs \<noteq> None"
    then obtain p where "longest_prefix P cs = Some p" by auto
    from longest_prefix_Some [OF this] a show False by blast
  qed
qed

lemma longest_prefix_whole: "P cs \<Longrightarrow> longest_prefix P cs = Some cs"
  by (cases "length cs") (simp_all add: longest_prefix_def)

lemma digit_not_white: "is_digit c \<Longrightarrow> \<not> is_StrWhiteSpaceChar c"
  by (auto simp: is_digit_def is_StrWhiteSpaceChar_def word_le_nat_alt)

lemma literal_head:
  assumes "is_StrDecimalLiteral p"
  shows "p \<noteq> [] \<and> \<not> is_StrWhiteSpaceChar (hd p)"
proof (cases p)
  case Nil
  with assms show ?thesis by (simp add: is_StrDecimalLiteral_def StrDecimalLiteral_def)
next
  case (Cons c r)
  consider "c = 0x2B" | "c = 0x2D" | "c \<noteq> 0x2B" "c \<noteq> 0x2D" by blast
  then have "\<not> is_StrWhiteSpaceChar c"
  proof cases
    case 1
    then show ?thesis by (simp add: is_StrWhiteSpaceChar_def)
  next
    case 2
    then show ?thesis by (simp add: is_StrWhiteSpaceChar_def)
  next
    case 3
    with assms Cons have u: "StrUnsignedDecimalLiteral False (c # r) \<noteq> None"
      by (simp add: is_StrDecimalLiteral_def StrDecimalLiteral_def)
    show ?thesis
    proof (cases "c # r = str ''Infinity''")
      case True
      then have "c = 0x49" by (simp add: str_def)
      then show ?thesis by (simp add: is_StrWhiteSpaceChar_def)
    next
      case False
      show ?thesis
      proof (cases "is_digit c")
        case True
        then show ?thesis by (rule digit_not_white)
      next
        case nd: False
        then have "takeWhile is_digit (c # r) = []" "dropWhile is_digit (c # r) = c # r" by simp_all
        with u False have "c = 0x2E"
          by (auto simp: StrUnsignedDecimalLiteral_def Let_def split: if_splits)
        then show ?thesis by (simp add: is_StrWhiteSpaceChar_def)
      qed
    qed
  qed
  with Cons show ?thesis by simp
qed

lemma TrimString_start_literal: "is_StrDecimalLiteral p \<Longrightarrow> TrimString_start p = p"
  using literal_head [of p] by (cases p) (simp_all add: TrimString_start_def)

lemma parseFloat_prefix:
  assumes "longest_prefix is_StrDecimalLiteral (TrimString_start t) = Some p"
  shows "parseFloat (JSString t) = parseFloat (JSString p)"
proof -
  from longest_prefix_Some [OF assms] have lit: "is_StrDecimalLiteral p" by blast
  have "longest_prefix is_StrDecimalLiteral (TrimString_start p) = Some p"
    by (simp add: TrimString_start_literal [OF lit] longest_prefix_whole [of is_StrDecimalLiteral p, OF lit])
  with assms show ?thesis by (simp add: parseFloat_def)
qed

lemma digits_of_head: "\<exists>d rest. digits_of n = d # rest \<and> is_digit d"
  using digits_of_not_Nil [of n] digits_of_all_digits [of n] by (cases "digits_of n") auto

lemma format_digits_head: "\<exists>c r. format_digits (s, k, n) = c # r \<and> is_digit c"
proof -
  obtain d rest where ds: "digits_of s = d # rest" and d: "is_digit d"
    using digits_of_head by blast
  have z: "is_digit 0x30" by (simp add: is_digit_def)
  show ?thesis
    using d z by (auto simp: format_digits_def Let_def ds str_def take_Cons')
qed

lemma round_ratio_cases:
  "round_ratio sg a b = Infinity sg \<or> (\<exists>m e. round_ratio sg a b = Finite sg m e)"
proof (cases "a = 0")
  case True
  then show ?thesis by (simp add: round_ratio_def)
next
  case False
  define e where "e = max (floor_log2 a b - 52) (- 1074)"
  define m where "m = (if 0 \<le> e then round_half_even a (b * 2 ^ nat e)
                 else round_half_even (a * 2 ^ nat (- e)) b)"
  obtain m' e' where p: "(if m = 2 ^ 53 then (2 ^ 52, e + 1) else (m, e)) = (m', e')"
    by (cases "if m = 2 ^ 53 then (2 ^ 52, e + 1) else (m, e)") blast
  have "round_ratio sg a b = (if 971 < e' then Infinity sg else Finite sg m' e')"
    unfolding round_ratio_def Let_def e_def [symmetric] m_def [symmetric] p
    using False by simp
  then show ?thesis by (cases "971 < e'") simp_all
qed

lemma round_decimal_not_NaN: "round_decimal sg s p \<noteq> NaN"
proof -
  have "round_ratio sg a b \<noteq> NaN" for a b
    using round_ratio_cases [of sg a b] by auto
  then show ?thesis by (simp add: round_decimal_def)
qed

lemma StringNumericValue_not_NaN: "StringNumericValue lit \<noteq> NaN"
  by (cases lit) (simp_all add: round_decimal_not_NaN)

lemma toFixed_2_head:
  assumes "x \<noteq> NaN"
  shows "\<exists>c r. toFixed 2 x = Inr (c # r) \<and> c \<noteq> 0x4E"
proof (cases x)
  case NaN
  with assms show ?thesis by simp
next
  case (Infinity sg)
  then show ?thesis by (simp add: toFixed_def str_def)
next
  case (Finite sg m e)
  have N: "\<not> is_digit 0x4E" by (simp add: is_digit_def)
  show ?thesis
  proof (cases "ge_1e21 m e")
    case True
    then have "m \<noteq> 0" by (cases "m = 0") (auto simp: ge_1e21_def split: if_splits)
    moreover obtain c r where "format_digits (number_digits m e) = c # r" "is_digit c"
      using format_digits_head [of "fst (number_digits m e)" "fst (snd (number_digits m e))"
          "snd (snd (number_digits m e))"] by auto
    ultimately show ?thesis using True N
      by (auto simp: toFixed_def Finite Let_def Number_toString.simps(3) str_def)
  next
    case False
    obtain d rest where "digits_of (fixed_integer 2 m e div 100) = d # rest" "is_digit d"
      using digits_of_head by blast
    then show ?thesis using N
      by (auto simp: Finite toFixed_2_finite [OF False] two_decimals_def str_def)
  qed
qed

lemma formatCurrency_NaN_iff:
  "formatCurrency amount = Inr (rupee # str ''NaN'') \<longleftrightarrow> parseFloat amount = NaN"
proof
  assume a: "formatCurrency amount = Inr (rupee # str ''NaN'')"
  show "parseFloat amount = NaN"
  proof (rule ccontr)
    assume "parseFloat amount \<noteq> NaN"
    from toFixed_2_head [OF this] obtain c r
      where "toFixed 2 (parseFloat amount) = Inr (c # r)" "c \<noteq> 0x4E" by blast
    with a show False by (simp add: formatCurrency_def str_def)
  qed
next
  assume "parseFloat amount = NaN"
  then show "formatCurrency amount = Inr (rupee # str ''NaN'')"
    by (simp add: formatCurrency_def toFixed_def)
qed

lemma parseFloat_NaN_iff:
  "parseFloat amount = NaN \<longleftrightarrow>
     longest_prefix is_StrDecimalLiteral (TrimString_start (ToString amount)) = None"
proof (cases "longest_prefix is_StrDecimalLiteral (TrimString_start (ToString amount))")
  case None
  then show ?thesis by (simp add: parseFloat_def)
next
  case (Some p)
  from longest_prefix_Some [OF Some] have "is_StrDecimalLiteral p" by blast
  then obtain lit where "StrDecimalLiteral p = Some lit"
    by (auto simp: is_StrDecimalLiteral_def)
  with Some show ?thesis by (simp add: parseFloat_def StringNumericValue_not_NaN)
qed

lemma SignedInteger_no_extension:
  assumes "SignedInteger ex \<noteq> None" and "\<not> is_digit c"
  shows "SignedInteger (ex @ c # r) = None"
proof (cases ex)
  case Nil
  with assms(1) show ?thesis by (simp add: SignedInteger_def)
next
  case (Cons x ds)
  with assms show ?thesis
    by (auto simp: SignedInteger_def split: if_splits)
qed

lemma ExponentPart_no_extension:
  assumes "ExponentPart ex \<noteq> None" and "\<not> is_digit c"
  shows "ExponentPart (ex @ c # r) = None"
proof (cases ex)
  case Nil
  with assms(1) show ?thesis by (simp add: ExponentPart_def)
next
  case (Cons x t)
  with assms show ?thesis
    by (auto simp: ExponentPart_def SignedInteger_no_extension split: if_splits)
qed

lemma ExponentPart_head:
  "\<not> continues_number c \<Longrightarrow> ExponentPart (c # r) = None"
  by (simp add: ExponentPart_def continues_number_def)

lemma takeWhile_split:
  "takeWhile P (u @ v) = (if \<forall>x\<in>set u. P x then u @ takeWhile P v else takeWhile P u)"
  by (induction u) auto

lemma dropWhile_split:
  "dropWhile P (u @ v) = (if \<forall>x\<in>set u. P x then dropWhile P v else dropWhile P u @ v)"
  by (induction u) auto

lemma unsigned_no_extension:
  assumes "StrUnsignedDecimalLiteral g u \<noteq> None" and "\<not> continues_number c"
  shows "StrUnsignedDecimalLiteral g (u @ c # r) = None"
proof -
  from assms(2) have nc: "\<not> is_digit c" "c \<noteq> 0x2E" "c \<noteq> 0x65" "c \<noteq> 0x45"
    by (simp_all add: continues_number_def)
  have c_exp: "ExponentPart (c # r) = None" by (rule ExponentPart_head [OF assms(2)])
  show ?thesis
  proof (cases "u = str ''Infinity''")
    case True
    then show ?thesis
      by (simp add: StrUnsignedDecimalLiteral_def Let_def str_def is_digit_def)
  next
    case False
    define ip where "ip = takeWhile is_digit u"
    define r1 where "r1 = dropWhile is_digit u"
    have u: "u = ip @ r1" by (simp add: ip_def r1_def)
    have ipd: "\<forall>x\<in>set ip. is_digit x" unfolding ip_def by (auto dest: set_takeWhileD)
    have hd_r1: "r1 \<noteq> [] \<Longrightarrow> \<not> is_digit (hd r1)"
      unfolding r1_def by (rule hd_dropWhile)
    have ninf: "u @ c # r \<noteq> str ''Infinity''"
    proof
      assume e: "u @ c # r = str ''Infinity''"
      from assms(1) False have "ip \<noteq> [] \<or> (r1 \<noteq> [] \<and> hd r1 = 0x2E)"
        by (auto simp: StrUnsignedDecimalLiteral_def Let_def ip_def r1_def split: if_splits)
      then have "is_digit (hd u) \<or> hd u = 0x2E"
        using ipd u by (cases ip) auto
      moreover from e have "hd (u @ c # r) = 0x49" by (simp add: str_def)
      moreover have "u \<noteq> []" using assms(1) False
        by (auto simp: StrUnsignedDecimalLiteral_def Let_def)
      ultimately show False by (auto simp: is_digit_def)
    qed
    show ?thesis
    proof (cases "r1 = []")
      case True
      then have all: "\<forall>x\<in>set u. is_digit x" using ipd u by simp
      have tw: "takeWhile is_digit (u @ c # r) = u" "dropWhile is_digit (u @ c # r) = c # r"
        using all nc(1) by (simp_all add: takeWhile_split dropWhile_split)
      show ?thesis
        using ninf nc c_exp by (simp add: StrUnsignedDecimalLiteral_def Let_def tw)
    next
      case r1ne: False
      then obtain d t where r1: "r1 = d # t" by (cases r1) auto
      have dnd: "\<not> is_digit d" using hd_r1 r1 by simp
      have notall: "\<not> (\<forall>x\<in>set u. is_digit x)" using u r1 dnd by auto
      have tu: "takeWhile is_digit u = ip" "dropWhile is_digit u = d # t"
        by (simp_all add: ip_def r1_def [symmetric] r1)
      have din: "d \<in> set u" using u r1 by simp
      have tw: "takeWhile is_digit (u @ c # r) = ip" "dropWhile is_digit (u @ c # r) = d # t @ c # r"
        using takeWhile_append1 [of d u is_digit "c # r"] dropWhile_append1 [of d u is_digit "c # r"]
          din dnd
        by (simp_all add: tu)
      show ?thesis
      proof (cases "d = 0x2E")
        case dot: True
        define fp where "fp = takeWhile is_digit t"
        define r2 where "r2 = dropWhile is_digit t"
        have fr: "ip \<noteq> [] \<or> fp \<noteq> []" "r2 = [] \<or> ExponentPart r2 \<noteq> None"
          using assms(1) False
          by (auto simp: StrUnsignedDecimalLiteral_def Let_def tu dot fp_def r2_def split: if_splits option.splits)
        show ?thesis
        proof (cases "r2 = []")
          case True
          then have "\<forall>x\<in>set t. is_digit x" by (simp add: r2_def)
          then have "takeWhile is_digit (t @ c # r) = t" "dropWhile is_digit (t @ c # r) = c # r"
            using nc(1) by (simp_all add: takeWhile_split dropWhile_split)
          then show ?thesis
            using ninf c_exp by (simp add: StrUnsignedDecimalLiteral_def Let_def tw dot)
        next
          case False
          then have na: "\<not> (\<forall>x\<in>set t. is_digit x)" by (simp add: r2_def)
          then obtain y where y: "y \<in> set t" "\<not> is_digit y" by blast
          have t2: "takeWhile is_digit (t @ c # r) = fp" "dropWhile is_digit (t @ c # r) = r2 @ c # r"
            using takeWhile_append1 [of y t is_digit "c # r"] dropWhile_append1 [of y t is_digit "c # r"] y
            by (simp_all add: fp_def r2_def)
          from fr(2) False have "ExponentPart (r2 @ c # r) = None"
            by (simp add: ExponentPart_no_extension nc(1))
          then show ?thesis
            using ninf False by (simp add: StrUnsignedDecimalLiteral_def Let_def tw dot t2)
        qed
      next
        case nodot: False
        have "ExponentPart (d # t) \<noteq> None"
          using assms(1) False nodot
          by (auto simp: StrUnsignedDecimalLiteral_def Let_def tu split: if_splits option.splits)
        then have "ExponentPart ((d # t) @ c # r) = None"
          by (rule ExponentPart_no_extension [OF _ nc(1)])
        then show ?thesis
          using ninf nodot by (simp add: StrUnsignedDecimalLiteral_def Let_def tw)
      qed
    qed
  qed
qed

lemma literal_no_extension:
  assumes "is_StrDecimalLiteral p" and "\<not> continues_number c"
  shows "\<not> is_StrDecimalLiteral (p @ c # r)"
proof (cases p)
  case Nil
  with assms(1) show ?thesis by (simp add: is_StrDecimalLiteral_def StrDecimalLiteral_def)
next
  case (Cons x u)
  show ?thesis
  proof (cases "x = 0x2B \<or> x = 0x2D")
    case True
    with assms(1) Cons obtain g where "StrUnsignedDecimalLiteral g u \<noteq> None"
      by (auto simp: is_StrDecimalLiteral_def StrDecimalLiteral_def split: if_splits)
    from unsigned_no_extension [OF this assms(2), of r] unsigned_no_extension [OF _ assms(2), of _ u r]
    show ?thesis using True Cons assms(1)
      by (auto simp: is_StrDecimalLiteral_def StrDecimalLiteral_def split: if_splits)
  next
    case False
    with assms(1) Cons have "StrUnsignedDecimalLiteral False p \<noteq> None"
      by (auto simp: is_StrDecimalLiteral_def StrDecimalLiteral_def)
    from unsigned_no_extension [OF this assms(2), of r]
    show ?thesis using False Cons
      by (auto simp: is_StrDecimalLiteral_def StrDecimalLiteral_def)
  qed
qed

lemma longest_prefix_eq:
  assumes "P p" and "\<forall>q r'. p @ r = q @ r' \<and> P q \<longrightarrow> length q \<le> length p"
  shows "longest_prefix P (p @ r) = Some p"
proof (cases "longest_prefix P (p @ r)")
  case None
  then have "\<not> P p" unfolding longest_prefix_None by blast
  with assms(1) show ?thesis by simp
next
  case (Some p')
  from longest_prefix_Some [OF Some] obtain r' where r': "p @ r = p' @ r'" and P': "P p'"
    and mx: "\<forall>q r''. p @ r = q @ r'' \<and> P q \<longrightarrow> length q \<le> length p'" by blast
  from mx assms(1) have "length p \<le> length p'" by blast
  moreover from assms(2) r' P' have "length p' \<le> length p" by blast
  ultimately have "length p = length p'" by simp
  with r' have "p = p'" by simp
  with Some show ?thesis by simp
qed

lemma numeric_prefix_stops:
  assumes "is_StrDecimalLiteral p" and "r = [] \<or> \<not> continues_number (hd r)"
  shows "longest_prefix is_StrDecimalLiteral (TrimString_start (p @ r)) = Some p"
proof -
  from literal_head [OF assms(1)] have "TrimString_start (p @ r) = p @ r"
    by (cases p) (simp_all add: TrimString_start_def)
  moreover have "length q \<le> length p" if "p @ r = q @ r'" "is_StrDecimalLiteral q" for q r'
  proof (rule ccontr)
    assume "\<not> length q \<le> length p"
    with that(1) obtain us where us: "q = p @ us" "us \<noteq> []" "r = us @ r'"
      by (auto simp: append_eq_append_conv2)
    then obtain c us' where c: "us = c # us'" by (cases us) auto
    with us(3) assms(2) have "\<not> continues_number c" by auto
    from literal_no_extension [OF assms(1) this, of us'] that(2) us(1) c show False by simp
  qed
  ultimately show ?thesis
    using longest_prefix_eq [of is_StrDecimalLiteral p r] assms(1) by simp
qed

subsection \<open>A Number's text parses back to the Number\<close>

text \<open>
  \<open>parseFloat\<close> first converts its argument to a string. For a Number that is
  Number::toString, whose digits are chosen so that they denote the Number again; the
  lemmas below follow the digits through the four output formats and back through the
  grammar of StrDecimalLiteral.
\<close>

lemma bitlen_bounds:
  "0 < n \<Longrightarrow> 2 ^ (bitlen n - 1) \<le> n \<and> n < 2 ^ bitlen n"
proof (induction n rule: bitlen.induct)
  case (1 n)
  show ?case
  proof (cases "n div 2 = 0")
    case True
    with 1(2) have "n = 1" by (simp add: div_eq_0_iff)
    then have "bitlen n = 1" by (simp add: bitlen.simps)
    with \<open>n = 1\<close> show ?thesis by simp
  next
    case False
    then have pos: "0 < n div 2" by simp
    from 1(2) have n0: "n \<noteq> 0" by simp
    from 1(1) [OF n0 pos] have lo: "2 ^ (bitlen (n div 2) - 1) \<le> n div 2"
      and hi: "n div 2 < 2 ^ bitlen (n div 2)" by simp_all
    have len: "bitlen n = Suc (bitlen (n div 2))" using n0 by (subst bitlen.simps) simp
    have l1: "0 < bitlen (n div 2)" using pos by (subst bitlen.simps) simp
    have "2 ^ (bitlen n - 1) = 2 * 2 ^ (bitlen (n div 2) - 1)"
      using l1 by (simp add: len flip: power_Suc)
    also have "\<dots> \<le> 2 * (n div 2)" using lo by simp
    also have "\<dots> \<le> n" by simp
    finally have A: "2 ^ (bitlen n - 1) \<le> n" .
    have "n < 2 * (n div 2) + 2" by presburger
    also have "\<dots> \<le> 2 * 2 ^ bitlen (n div 2)" using hi by simp
    finally have B: "n < 2 ^ bitlen n" by (simp add: len)
    from A B show ?thesis by simp
  qed
qed

lemma bitlen_pos: "0 < n \<Longrightarrow> 0 < bitlen n"
  by (subst bitlen.simps) simp

text \<open>The comparison of \<open>a / b\<close> with a power of two, as \<open>floor_log2\<close> makes it on integers.\<close>

lemma pow2_le_ratio_iff:
  assumes "0 < b"
  shows "(if 0 \<le> l then b * 2 ^ nat l \<le> a else b \<le> a * 2 ^ nat (- l)) \<longleftrightarrow> 2 powi l \<le> real a / real b"
proof (cases "0 \<le> l")
  case True
  have "(b * 2 ^ nat l \<le> a) = (real (b * 2 ^ nat l) \<le> real a)" by (simp only: of_nat_le_iff)
  also have "\<dots> = (2 ^ nat l * real b \<le> real a)" by (simp add: mult.commute)
  also have "\<dots> = (2 ^ nat l \<le> real a / real b)" using assms by (simp add: pos_le_divide_eq)
  finally show ?thesis using True by (simp add: powi_nonneg_nat)
next
  case False
  have "(b \<le> a * 2 ^ nat (- l)) = (real b \<le> real (a * 2 ^ nat (- l)))" by (simp only: of_nat_le_iff)
  also have "\<dots> = (real b / 2 ^ nat (- l) \<le> real a)" by (simp add: pos_divide_le_eq)
  also have "\<dots> = (1 / 2 ^ nat (- l) * real b \<le> real a)" by simp
  also have "\<dots> = (1 / 2 ^ nat (- l) \<le> real a / real b)" using assms by (simp only: pos_le_divide_eq of_nat_0_less_iff)
  finally show ?thesis using False by (simp add: powi_neg_nat)
qed

lemma real_bitlen_bounds:
  assumes "0 < n"
  shows "2 powi (int (bitlen n) - 1) \<le> real n" and "real n < 2 powi (int (bitlen n))"
proof -
  from bitlen_bounds [OF assms] have lo: "2 ^ (bitlen n - 1) \<le> n" and hi: "n < 2 ^ bitlen n"
    by simp_all
  have "int (bitlen n) - 1 = int (bitlen n - 1)" using bitlen_pos [OF assms] by simp
  then have "(2::real) powi (int (bitlen n) - 1) = 2 ^ (bitlen n - 1)"
    by (simp only: power_int_of_nat)
  also have "\<dots> = real (2 ^ (bitlen n - 1))" by simp
  also have "\<dots> \<le> real n" using lo by (simp only: of_nat_le_iff)
  finally show "2 powi (int (bitlen n) - 1) \<le> real n" .
  have "real n < real (2 ^ bitlen n)" using hi by (simp only: of_nat_less_iff)
  then show "real n < 2 powi (int (bitlen n))" by simp
qed

lemma floor_log2_bounds:
  assumes "0 < a" and "0 < b"
  shows "2 powi (floor_log2 a b) \<le> real a / real b \<and> real a / real b < 2 powi (floor_log2 a b + 1)"
proof -
  define l where "l = int (bitlen a) - int (bitlen b)"
  have ra: "0 < real a" "0 < real b" using assms by simp_all
  have up: "real a / real b < 2 powi (l + 1)"
  proof -
    have "real a / real b < 2 powi (int (bitlen a)) / real b"
      using real_bitlen_bounds(2) [OF assms(1)] ra by (simp add: divide_strict_right_mono)
    also have "\<dots> \<le> 2 powi (int (bitlen a)) / 2 powi (int (bitlen b) - 1)"
      using real_bitlen_bounds(1) [OF assms(2)] ra by (intro divide_left_mono) (simp_all add: zero_less_mult_iff)
    also have "\<dots> = 2 powi (int (bitlen a) - (int (bitlen b) - 1))"
      by (simp add: power_int_diff)
    also have "int (bitlen a) - (int (bitlen b) - 1) = l + 1" by (simp add: l_def)
    finally show ?thesis .
  qed
  have lo: "2 powi (l - 1) \<le> real a / real b"
  proof -
    have "l - 1 = (int (bitlen a) - 1) - int (bitlen b)" by (simp add: l_def)
    then have "(2::real) powi (l - 1) = 2 powi ((int (bitlen a) - 1) - int (bitlen b))"
      by (rule arg_cong)
    also have "\<dots> = 2 powi (int (bitlen a) - 1) / 2 powi (int (bitlen b))"
      by (rule power_int_diff) simp
    also have "\<dots> \<le> real a / 2 powi (int (bitlen b))"
      using real_bitlen_bounds(1) [OF assms(1)] by (simp add: divide_right_mono)
    also have "\<dots> \<le> real a / real b"
      using real_bitlen_bounds(2) [OF assms(2)] ra by (intro divide_left_mono) simp_all
    finally show ?thesis .
  qed
  have fl: "floor_log2 a b = (if 2 powi l \<le> real a / real b then l else l - 1)"
    unfolding floor_log2_def Let_def l_def [symmetric]
    by (simp only: pow2_le_ratio_iff [OF assms(2)])
  show ?thesis
  proof (cases "2 powi l \<le> real a / real b")
    case True
    with up fl show ?thesis by simp
  next
    case False
    with lo fl show ?thesis by simp
  qed
qed

lemma pow2_bracket_unique:
  assumes "2 powi l \<le> (y::real)" "y < 2 powi (l + 1)" "2 powi k \<le> y" "y < 2 powi (k + 1)"
  shows "l = k"
proof (rule ccontr)
  assume "l \<noteq> k"
  then consider "l + 1 \<le> k" | "k + 1 \<le> l" by linarith
  then show False
  proof cases
    case 1
    then have "(2::real) powi (l + 1) \<le> 2 powi k" by (intro power_int_increasing) simp_all
    with assms(2,3) show False by linarith
  next
    case 2
    then have "(2::real) powi (k + 1) \<le> 2 powi l" by (intro power_int_increasing) simp_all
    with assms(1,4) show False by linarith
  qed
qed

lemma round_half_even_exact: "0 < d \<Longrightarrow> round_half_even (m * d) d = m"
  by (simp add: round_half_even_def Let_def)

lemma round_ratio_exact:
  assumes "canonical m e" and "0 < a" and "0 < b" and "real a / real b = real m * 2 powi e"
  shows "round_ratio sg a b = Finite sg m e"
proof -
  have mpos: "0 < m"
  proof (rule ccontr)
    assume "\<not> 0 < m"
    with assms(4) have "real a / real b = 0" by simp
    with assms(2,3) show False by simp
  qed
  from assms(1) have m53: "m < 2 ^ 53" and elo: "- 1074 \<le> e" and ehi: "e \<le> 971"
    and norm: "2 ^ 52 \<le> m \<or> e = - 1074"
    by (simp_all add: canonical_def)
  define L where "L = floor_log2 a b"
  from floor_log2_bounds [OF assms(2,3)]
  have Llo: "2 powi L \<le> real m * 2 powi e" and Lhi: "real m * 2 powi e < 2 powi (L + 1)"
    by (simp_all add: L_def assms(4))
  have p2: "0 < (2::real) powi e" by simp
  have hi53: "real m * 2 powi e < 2 powi (52 + e + 1)"
  proof -
    have "real m < real (2 ^ 53)" using m53 by (simp only: of_nat_less_iff)
    then have "real m < 2 ^ 53" by simp
    then have "real m * 2 powi e < 2 ^ 53 * 2 powi e" using p2 by (simp only: mult_strict_right_mono)
    also have "\<dots> = 2 powi 53 * 2 powi e" by simp
    also have "\<dots> = 2 powi (53 + e)" by (simp add: power_int_add)
    finally show ?thesis by (simp add: add.commute add.left_commute)
  qed
  have ec: "max (L - 52) (- 1074) = e"
  proof (cases "2 ^ 52 \<le> m")
    case True
    then have "real (2 ^ 52) \<le> real m" by (simp only: of_nat_le_iff)
    then have "2 ^ 52 \<le> real m" by simp
    then have le: "2 ^ 52 * 2 powi e \<le> real m * 2 powi e" using p2 by (simp only: mult_right_mono less_imp_le)
    have "(2::real) powi (52 + e) = 2 powi 52 * 2 powi e" by (simp add: power_int_add)
    also have "\<dots> = 2 ^ 52 * 2 powi e" by simp
    also note le
    finally have lo52: "2 powi (52 + e) \<le> real m * 2 powi e" .
    from pow2_bracket_unique [OF Llo Lhi lo52 hi53] have "L = 52 + e" .
    with elo show ?thesis by simp
  next
    case False
    with norm have e: "e = - 1074" by simp
    from False have "real m < real (2 ^ 52)" by (simp only: of_nat_less_iff not_le)
    then have "real m < 2 ^ 52" by simp
    then have "real m * 2 powi e < 2 ^ 52 * 2 powi e" using p2 by (simp only: mult_strict_right_mono)
    also have "\<dots> = 2 powi 52 * 2 powi e" by simp
    also have "\<dots> = 2 powi (52 + e)" by (simp add: power_int_add)
    finally have "2 powi L < (2::real) powi (52 + e)" using Llo by linarith
    then have "L < 52 + e"
    proof -
      have "\<not> 52 + e \<le> L"
      proof
        assume "52 + e \<le> L"
        then have "(2::real) powi (52 + e) \<le> 2 powi L" by (intro power_int_increasing) simp_all
        with \<open>2 powi L < (2::real) powi (52 + e)\<close> show False by linarith
      qed
      then show ?thesis by simp
    qed
    with e show ?thesis by simp
  qed
  have mc: "(if 0 \<le> e then round_half_even a (b * 2 ^ nat e)
             else round_half_even (a * 2 ^ nat (- e)) b) = m"
  proof (cases "0 \<le> e")
    case True
    from assms(4) have "real a = real m * 2 ^ nat e * real b"
      using assms(3) True by (simp add: powi_nonneg_nat field_simps)
    also have "\<dots> = real (m * (b * 2 ^ nat e))" by simp
    finally have "a = m * (b * 2 ^ nat e)" by (simp only: of_nat_eq_iff)
    moreover have "0 < b * 2 ^ nat e" using assms(3) by simp
    ultimately show ?thesis using True by (simp only: round_half_even_exact if_True)
  next
    case False
    from assms(4) have "real a * 2 ^ nat (- e) = real m * real b"
      using assms(3) False by (simp add: powi_neg_nat field_simps)
    then have "real (a * 2 ^ nat (- e)) = real (m * b)" by simp
    then have "a * 2 ^ nat (- e) = m * b" by (simp only: of_nat_eq_iff)
    then show ?thesis using False assms(3) by (simp only: round_half_even_exact if_False)
  qed
  have "round_ratio sg a b =
      (case (if m = 2 ^ 53 then (2 ^ 52, e + 1) else (m, e)) of
         (m', e') \<Rightarrow> if 971 < e' then Infinity sg else Finite sg m' e')"
    unfolding round_ratio_def Let_def L_def [symmetric] ec mc using assms(2) by simp
  also have "\<dots> = Finite sg m e" using m53 ehi by simp
  finally show ?thesis .
qed

lemma lead_zeros_bounds:
  "0 < a \<Longrightarrow> a < b \<Longrightarrow> a * 10 ^ lead_zeros a b < b \<and> b \<le> a * 10 ^ Suc (lead_zeros a b)"
proof (induction a b rule: lead_zeros.induct)
  case (1 a b)
  show ?case
  proof (cases "b \<le> a * 10")
    case True
    then have "lead_zeros a b = 0" by (subst lead_zeros.simps) simp
    with True 1(3) show ?thesis by simp
  next
    case False
    with 1(2) have z: "lead_zeros a b = Suc (lead_zeros (a * 10) b)"
      by (subst lead_zeros.simps) simp
    from 1(2) False have c: "\<not> (a = 0 \<or> b \<le> a * 10)" by simp
    from False 1(2) have "0 < a * 10" "a * 10 < b" by simp_all
    from 1(1) [OF c this] show ?thesis by (simp add: z mult.assoc)
  qed
qed

lemma length_digits_of_unique:
  assumes "10 ^ (k - 1) \<le> s" and "s < 10 ^ k" and "0 < k"
  shows "length (digits_of s) = k"
proof -
  have spos: "0 < s" using assms(1) by (rule less_le_trans [rotated]) simp
  define j where "j = length (digits_of s)"
  from length_digits_of_bounds [OF spos] have lo: "10 ^ (j - 1) \<le> s" and hi: "s < 10 ^ j"
    by (simp_all add: j_def)
  have jpos: "0 < j" using digits_of_not_Nil [of s] by (simp add: j_def)
  have "\<not> j < k"
  proof
    assume "j < k"
    then have "j \<le> k - 1" by simp
    then have "(10::nat) ^ j \<le> 10 ^ (k - 1)" by (intro power_increasing) simp_all
    with assms(1) hi show False by linarith
  qed
  moreover have "\<not> k < j"
  proof
    assume "k < j"
    then have "k \<le> j - 1" by simp
    then have "(10::nat) ^ k \<le> 10 ^ (j - 1)" by (intro power_increasing) simp_all
    with assms(2) lo show False by linarith
  qed
  ultimately show ?thesis by (simp add: j_def)
qed

lemma powi10_neg_nat: "t < 0 \<Longrightarrow> (10::real) powi t = 1 / 10 ^ nat (- t)"
  by (simp add: power_int_def power_one_over)

lemma powi10_nonneg_nat: "0 \<le> t \<Longrightarrow> (10::real) powi t = 10 ^ nat t"
  by (simp add: power_int_def)

lemma scaled_floor_floor:
  assumes "0 < b"
  shows "int (scaled_floor a b t) = \<lfloor>real a / real b * 10 powi t\<rfloor>"
proof (cases "0 \<le> t")
  case True
  have "real a / real b * 10 ^ nat t = real (a * 10 ^ nat t) / real b" by simp
  also have "\<lfloor>\<dots>\<rfloor> = int ((a * 10 ^ nat t) div b)" by (rule floor_divide_of_nat_eq)
  finally show ?thesis using True by (simp add: scaled_floor_def powi10_nonneg_nat)
next
  case False
  have "real a / real b * (1 / 10 ^ nat (- t)) = real a / real (b * 10 ^ nat (- t))" by simp
  also have "\<lfloor>\<dots>\<rfloor> = int (a div (b * 10 ^ nat (- t)))" by (rule floor_divide_of_nat_eq)
  finally show ?thesis using False by (simp add: scaled_floor_def powi10_neg_nat)
qed

lemma decimal_exponent_bounds:
  assumes "0 < a" and "0 < b"
  shows "10 powi (decimal_exponent a b - 1) \<le> real a / real b
       \<and> real a / real b < 10 powi (decimal_exponent a b)"
proof (cases "b \<le> a")
  case True
  define q where "q = a div b"
  have qpos: "0 < q" using True assms(2) by (simp add: q_def div_greater_zero_iff)
  define n where "n = length (digits_of q)"
  from length_digits_of_bounds [OF qpos] have lo: "10 ^ (n - 1) \<le> q" and hi: "q < 10 ^ n"
    by (simp_all add: n_def)
  have npos: "0 < n" using digits_of_not_Nil [of q] by (simp add: n_def)
  have de: "decimal_exponent a b = int n" using True by (simp add: decimal_exponent_def n_def q_def)
  have fl: "\<lfloor>real a / real b\<rfloor> = int q" unfolding q_def by (rule floor_divide_of_nat_eq)
  have "real (10 ^ (n - 1)) \<le> real q" using lo by (simp only: of_nat_le_iff)
  also have "real q = of_int \<lfloor>real a / real b\<rfloor>" by (simp add: fl)
  also have "\<dots> \<le> real a / real b" by (rule of_int_floor_le)
  finally have A: "10 ^ (n - 1) \<le> real a / real b" by simp
  have "real a / real b < of_int \<lfloor>real a / real b\<rfloor> + 1" by linarith
  also have "\<dots> = real (q + 1)" by (simp add: fl)
  also have "\<dots> \<le> real (10 ^ n)" using hi by (simp only: of_nat_le_iff)
  finally have B: "real a / real b < 10 ^ n" by simp
  have "int n - 1 = int (n - 1)" using npos by simp
  then have "(10::real) powi (int n - 1) = 10 ^ (n - 1)" by (simp only: power_int_of_nat)
  with A B show ?thesis by (simp add: de)
next
  case False
  then have ab: "a < b" by simp
  define z where "z = lead_zeros a b"
  from lead_zeros_bounds [OF assms(1) ab] have lo: "a * 10 ^ z < b" and hi: "b \<le> a * 10 ^ Suc z"
    by (simp_all add: z_def)
  have de: "decimal_exponent a b = - int z" using False by (simp add: decimal_exponent_def z_def)
  have rb: "0 < real b" using assms(2) by simp
  have "real b \<le> real (a * 10 ^ Suc z)" using hi by (simp only: of_nat_le_iff)
  then have "real b \<le> real a * 10 ^ Suc z" by simp
  then have "1 / 10 ^ Suc z \<le> real a / real b" using rb by (simp add: field_simps)
  moreover have "(10::real) powi (- int z - 1) = 1 / 10 ^ Suc z"
  proof -
    have "- int z - 1 = - int (Suc z)" by simp
    then have "(10::real) powi (- int z - 1) = 10 powi (- int (Suc z))" by (rule arg_cong)
    also have "\<dots> = 1 / 10 ^ Suc z" by (simp only: power_int_minus_divide power_int_of_nat)
    finally show ?thesis .
  qed
  ultimately have A: "10 powi (- int z - 1) \<le> real a / real b" by simp
  have "real (a * 10 ^ z) < real b" using lo by (simp only: of_nat_less_iff)
  then have "real a * 10 ^ z < real b" by simp
  then have "real a / real b < 1 / 10 ^ z" using rb by (simp add: field_simps)
  moreover have "(10::real) powi (- int z) = 1 / 10 ^ z"
    by (simp only: power_int_minus_divide power_int_of_nat)
  ultimately have B: "real a / real b < 10 powi (- int z)" by simp
  from A B show ?thesis by (simp add: de)
qed

lemma scaled_floor_digits:
  assumes "0 < a" and "0 < b" and "0 < k"
  shows "10 ^ (k - 1) \<le> scaled_floor a b (int k - decimal_exponent a b)
       \<and> scaled_floor a b (int k - decimal_exponent a b) < 10 ^ k"
proof -
  define n0 where "n0 = decimal_exponent a b"
  define y where "y = real a / real b * 10 powi (int k - n0)"
  from decimal_exponent_bounds [OF assms(1,2)]
  have lo: "10 powi (n0 - 1) \<le> real a / real b" and hi: "real a / real b < 10 powi n0"
    by (simp_all add: n0_def)
  have p: "0 < (10::real) powi (int k - n0)" by simp
  have "10 powi (n0 - 1) * 10 powi (int k - n0) \<le> y"
    unfolding y_def using lo p by (simp only: mult_right_mono less_imp_le)
  moreover have "(10::real) powi (n0 - 1) * 10 powi (int k - n0) = 10 powi (int (k - 1))"
  proof -
    have "(10::real) powi (n0 - 1) * 10 powi (int k - n0) = 10 powi ((n0 - 1) + (int k - n0))"
      by (rule power_int_add [symmetric]) simp
    also have "(n0 - 1) + (int k - n0) = int (k - 1)" using assms(3) by simp
    finally show ?thesis .
  qed
  ultimately have ylo: "real (10 ^ (k - 1)) \<le> y" by simp
  have "y < 10 powi n0 * 10 powi (int k - n0)"
    unfolding y_def using hi p by (simp only: mult_strict_right_mono)
  moreover have "(10::real) powi n0 * 10 powi (int k - n0) = 10 powi (int k)"
  proof -
    have "(10::real) powi n0 * 10 powi (int k - n0) = 10 powi (n0 + (int k - n0))"
      by (rule power_int_add [symmetric]) simp
    also have "n0 + (int k - n0) = int k" by simp
    finally show ?thesis .
  qed
  ultimately have yhi: "y < real (10 ^ k)" by simp
  have fl: "int (scaled_floor a b (int k - n0)) = \<lfloor>y\<rfloor>"
    unfolding y_def by (rule scaled_floor_floor [OF assms(2)])
  have "int (10 ^ (k - 1)) \<le> \<lfloor>y\<rfloor>" using ylo by (simp add: le_floor_iff)
  then have A: "10 ^ (k - 1) \<le> scaled_floor a b (int k - n0)"
    unfolding fl [symmetric] by (simp only: of_nat_le_iff)
  have "\<lfloor>y\<rfloor> < int (10 ^ k)" using yhi by (simp add: floor_less_iff)
  then have B: "scaled_floor a b (int k - n0) < 10 ^ k"
    unfolding fl [symmetric] by (simp only: of_nat_less_iff)
  from A B show ?thesis by (simp add: n0_def)
qed

lemma shortest_digits_Some:
  "shortest_digits cand k0 fuel = Some (s, k, n) \<Longrightarrow> k0 \<le> k \<and> cand k = Some (s, n)"
proof (induction fuel arbitrary: k0)
  case 0
  then show ?case by (subst (asm) shortest_digits.simps) simp
next
  case (Suc fuel)
  show ?case
  proof (cases "cand k0")
    case None
    with Suc.prems have "shortest_digits cand (Suc k0) fuel = Some (s, k, n)"
      by (subst (asm) shortest_digits.simps) simp
    from Suc.IH [OF this] show ?thesis by simp
  next
    case (Some r)
    with Suc.prems show ?thesis
      by (subst (asm) shortest_digits.simps) (auto split: prod.splits)
  qed
qed

lemma digit_candidate_sound:
  assumes "digit_candidate x a b n0 k = Some (s, n)"
  shows "round_decimal False s (n - int k) = x
       \<and> (s = scaled_floor a b (int k - n0)
          \<or> (s = scaled_floor a b (int k - n0) + 1 \<and> s \<noteq> 10 ^ k)
          \<or> s = 10 ^ (k - 1))"
proof -
  define lo where "lo = scaled_floor a b (int k - n0)"
  obtain hi nh where h: "(if lo + 1 = 10 ^ k then (10 ^ (k - 1), n0 + 1) else (lo + 1, n0)) = (hi, nh)"
    by (cases "if lo + 1 = 10 ^ k then (10 ^ (k - 1), n0 + 1) else (lo + 1, n0)") blast
  have hs: "(hi = lo + 1 \<and> hi \<noteq> 10 ^ k) \<or> hi = 10 ^ (k - 1)"
    using h by (auto split: if_splits)
  from assms have c: "(if round_decimal False lo (n0 - int k) = x \<and> round_decimal False hi (nh - int k) = x
           then (if nearer_lo a b (int k - n0) lo then Some (lo, n0) else Some (hi, nh))
           else if round_decimal False lo (n0 - int k) = x then Some (lo, n0)
           else if round_decimal False hi (nh - int k) = x then Some (hi, nh)
           else None) = Some (s, n)"
    unfolding digit_candidate_def Let_def lo_def [symmetric] h by simp
  then consider "s = lo" "n = n0" "round_decimal False lo (n0 - int k) = x"
    | "s = hi" "n = nh" "round_decimal False hi (nh - int k) = x"
    by (auto split: if_splits)
  then show ?thesis
  proof cases
    case 1
    then show ?thesis by (simp add: lo_def)
  next
    case 2
    with hs show ?thesis by (auto simp: lo_def)
  qed
qed

lemma digit_candidate_length:
  assumes "digit_candidate x a b (decimal_exponent a b) k = Some (s, n)"
    and "0 < a" and "0 < b" and "0 < k"
  shows "length (digits_of s) = k"
proof -
  from scaled_floor_digits [OF assms(2,3,4)]
  have lo: "10 ^ (k - 1) \<le> scaled_floor a b (int k - decimal_exponent a b)"
    and hi: "scaled_floor a b (int k - decimal_exponent a b) < 10 ^ k" by simp_all
  have p: "(10::nat) ^ (k - 1) < 10 ^ k" using assms(4) by (intro power_strict_increasing) simp_all
  from digit_candidate_sound [OF assms(1)]
  have "10 ^ (k - 1) \<le> s \<and> s < 10 ^ k" using lo hi p by auto
  then show ?thesis using assms(4) by (simp add: length_digits_of_unique)
qed

lemma ten_pow_split: "(10::nat) ^ k = 2 ^ k * 5 ^ k"
proof -
  have "(10::nat) = 2 * 5" by simp
  then show ?thesis by (simp only: power_mult_distrib)
qed

lemma number_digits_sound:
  assumes "canonical m e" and "0 < m" and "number_digits m e = (s, k, n)"
  shows "round_decimal False s (n - int k) = Finite False m e \<and> length (digits_of s) = k"
proof -
  define a where "a = (if 0 \<le> e then m * 2 ^ nat e else m)"
  define b where "b = (if 0 \<le> e then 1 else (2::nat) ^ nat (- e))"
  define n0 where "n0 = decimal_exponent a b"
  define kmax where "kmax = nat (if 0 \<le> e then n0 else n0 - e)"
  have apos: "0 < a" and bpos: "0 < b" using assms(2) by (simp_all add: a_def b_def)
  have val: "real a / real b = real m * 2 powi e"
    by (cases "0 \<le> e") (simp_all add: a_def b_def powi_nonneg_nat powi_neg_nat)
  from decimal_exponent_bounds [OF apos bpos]
  have dlo: "10 powi (n0 - 1) \<le> real a / real b" and dhi: "real a / real b < 10 powi n0"
    by (simp_all add: n0_def)
  have kpos: "0 < kmax" and texact: "int kmax - n0 = (if 0 \<le> e then 0 else - e)"
  proof -
    have "0 < (if 0 \<le> e then n0 else n0 - e)"
    proof (cases "0 \<le> e")
      case True
      then have "b \<le> a" using assms(2) by (simp add: a_def b_def)
      then have "n0 = int (length (digits_of (a div b)))" by (simp add: n0_def decimal_exponent_def)
      then show ?thesis using True digits_of_not_Nil [of "a div b"] by simp
    next
      case False
      define K where "K = nat (- e)"
      have "(10::real) powi (- int K) < 10 powi n0"
      proof -
        have "(2::real) ^ K \<le> 10 ^ K" by (intro power_mono) simp_all
        then have "1 / (10::real) ^ K \<le> 1 / 2 ^ K" by (simp add: frac_le)
        also have "\<dots> \<le> real m * (1 / 2 ^ K)"
        proof -
          have "1 \<le> real m" using assms(2) by simp
          then have "1 * (1 / 2 ^ K) \<le> real m * (1 / (2::real) ^ K)"
            by (intro mult_right_mono) simp_all
          then show ?thesis by simp
        qed
        also have "\<dots> = real a / real b" using False by (simp add: val powi_neg_nat K_def)
        also note dhi
        finally show ?thesis by (simp only: power_int_minus_divide power_int_of_nat)
      qed
      then have "- int K < n0"
      proof -
        have "\<not> n0 \<le> - int K"
        proof
          assume "n0 \<le> - int K"
          then have "(10::real) powi n0 \<le> 10 powi (- int K)" by (intro power_int_increasing) simp_all
          with \<open>(10::real) powi (- int K) < 10 powi n0\<close> show False by linarith
        qed
        then show ?thesis by simp
      qed
      then show ?thesis using False by (simp add: K_def)
    qed
    then show "0 < kmax" "int kmax - n0 = (if 0 \<le> e then 0 else - e)"
      by (simp_all add: kmax_def)
  qed
  have nd: "number_digits m e =
      (case shortest_digits (digit_candidate (Finite False m e) a b n0) 1 kmax of
         Some r \<Rightarrow> r
       | None \<Rightarrow> (scaled_floor a b (int kmax - n0), kmax, n0))"
    unfolding number_digits_def Let_def a_def b_def n0_def kmax_def by (rule refl)
  show ?thesis
  proof (cases "shortest_digits (digit_candidate (Finite False m e) a b n0) 1 kmax")
    case (Some r)
    with nd assms(3) have "shortest_digits (digit_candidate (Finite False m e) a b n0) 1 kmax = Some (s, k, n)"
      by simp
    from shortest_digits_Some [OF this]
    have k1: "1 \<le> k" and c: "digit_candidate (Finite False m e) a b n0 k = Some (s, n)" by simp_all
    from digit_candidate_sound [OF c] digit_candidate_length [OF c [unfolded n0_def] apos bpos] k1
    show ?thesis by simp
  next
    case None
    with nd assms(3) have s: "s = scaled_floor a b (int kmax - n0)" and k: "k = kmax" and n: "n = n0"
      by simp_all
    have len: "length (digits_of s) = k"
      using scaled_floor_digits [OF apos bpos kpos] kpos
      by (simp add: s k n0_def length_digits_of_unique)
    have "round_decimal False s (n - int k) = Finite False m e"
    proof (cases "0 \<le> e")
      case True
      with texact have t0: "int kmax - n0 = 0" by simp
      then have nk: "n - int k = 0" by (simp add: n k)
      have sa: "s = a" using True by (simp add: s t0 scaled_floor_def b_def)
      have "round_ratio False a 1 = Finite False m e"
        using round_ratio_exact [OF assms(1) apos, of 1 False] val True by (simp add: b_def)
      then show ?thesis by (simp add: nk sa round_decimal_def)
    next
      case False
      define K where "K = nat (- e)"
      from False texact have t: "int kmax - n0 = int K" by (simp add: K_def)
      then have nk: "n - int k = - int K" by (simp add: n k)
      have Kpos: "0 < K" using False by (simp add: K_def)
      have "s = (m * 10 ^ K) div 2 ^ K" using False by (simp add: s t scaled_floor_def a_def b_def K_def)
      also have "m * 10 ^ K = (m * 5 ^ K) * 2 ^ K" by (simp add: ten_pow_split mult_ac)
      finally have s5: "s = m * 5 ^ K" by simp
      have "real (m * 5 ^ K) / real (10 ^ K) = real m * 2 powi e"
      proof -
        have "real (m * 5 ^ K) / real (10 ^ K) = real m * 5 ^ K / (2 ^ K * 5 ^ K)"
          by (simp add: ten_pow_split)
        also have "\<dots> = real m * (1 / 2 ^ K)" by simp
        also have "\<dots> = real m * 2 powi e" using False by (simp add: powi_neg_nat K_def)
        finally show ?thesis .
      qed
      from round_ratio_exact [OF assms(1) _ _ this, of False]
      have "round_ratio False (m * 5 ^ K) (10 ^ K) = Finite False m e" using assms(2) by simp
      then show ?thesis using Kpos by (simp add: nk s5 round_decimal_def)
    qed
    with len show ?thesis by simp
  qed
qed

lemma not_digit_chars:
  "\<not> is_digit 0x2E" "\<not> is_digit 0x65" "\<not> is_digit 0x2B" "\<not> is_digit 0x2D" "\<not> is_digit 0x49"
  "is_digit 0x30"
  by (simp_all add: is_digit_def)

lemma digits_not_Infinity:
  assumes "ip \<noteq> []" and "list_all is_digit ip"
  shows "ip @ r \<noteq> str ''Infinity''"
proof
  assume "ip @ r = str ''Infinity''"
  then have "hd (ip @ r) = 0x49" by (simp add: str_def)
  with assms show False using not_digit_chars(5) by (cases ip) auto
qed

lemma takeWhile_all_digits: "list_all is_digit ds \<Longrightarrow> takeWhile is_digit ds = ds"
  by (simp add: list_all_iff)

lemma dropWhile_all_digits: "list_all is_digit ds \<Longrightarrow> dropWhile is_digit ds = []"
  by (simp add: list_all_iff)

lemma literal_digits:
  assumes "ip \<noteq> []" and "list_all is_digit ip"
  shows "StrUnsignedDecimalLiteral sg ip = Some (LitDecimal sg (digits_val ip) 0)"
  using assms digits_not_Infinity [OF assms, of "[]"]
  by (simp add: StrUnsignedDecimalLiteral_def Let_def takeWhile_all_digits dropWhile_all_digits)

lemma literal_point:
  assumes "ip \<noteq> []" and "list_all is_digit ip" and "list_all is_digit fp"
  shows "StrUnsignedDecimalLiteral sg (ip @ 0x2E # fp)
           = Some (LitDecimal sg (digits_val (ip @ fp)) (- int (length fp)))"
  using assms digits_not_Infinity [OF assms(1,2), of "0x2E # fp"]
  by (simp add: StrUnsignedDecimalLiteral_def Let_def takeWhile_digits_then dropWhile_digits_then
      not_digit_chars takeWhile_all_digits dropWhile_all_digits)

lemma literal_exponent:
  assumes "ip \<noteq> []" and "list_all is_digit ip" and "SignedInteger ex = Some x"
  shows "StrUnsignedDecimalLiteral sg (ip @ 0x65 # ex) = Some (LitDecimal sg (digits_val ip) x)"
  using assms digits_not_Infinity [OF assms(1,2), of "0x65 # ex"]
  by (simp add: StrUnsignedDecimalLiteral_def Let_def takeWhile_digits_then dropWhile_digits_then
      not_digit_chars ExponentPart_def)

lemma literal_point_exponent:
  assumes "ip \<noteq> []" and "list_all is_digit ip" and "list_all is_digit fp"
    and "SignedInteger ex = Some x"
  shows "StrUnsignedDecimalLiteral sg (ip @ 0x2E # fp @ 0x65 # ex)
           = Some (LitDecimal sg (digits_val (ip @ fp)) (x - int (length fp)))"
  using assms digits_not_Infinity [OF assms(1,2), of "0x2E # fp @ 0x65 # ex"]
  by (simp add: StrUnsignedDecimalLiteral_def Let_def takeWhile_digits_then dropWhile_digits_then
      not_digit_chars ExponentPart_def)

lemma SignedInteger_exponent:
  "SignedInteger ((if x < 0 then str ''-'' else str ''+'') @ digits_of (nat \<bar>x\<bar>)) = Some x"
proof (cases "x < 0")
  case True
  then show ?thesis
    by (simp add: SignedInteger_def str_def digits_of_all_digits digits_val_digits_of digits_of_not_Nil)
next
  case False
  then show ?thesis
    by (simp add: SignedInteger_def str_def digits_of_all_digits digits_val_digits_of digits_of_not_Nil)
qed

lemma digits_val_zeros: "digits_val (replicate j 0x30 @ ds) = digits_val ds"
  by (induction j) (simp_all add: digits_val_def digit_val_def)

lemma digits_val_zeros_right: "digits_val (ds @ replicate j 0x30) = digits_val ds * 10 ^ j"
proof -
  have "digits_val (replicate j 0x30) = 0"
    using digits_val_zeros [of j "[]"] by (simp add: digits_val_def)
  then show ?thesis by (simp add: digits_val_append)
qed

lemma all_digits_zeros: "list_all is_digit (replicate j 0x30)"
  by (simp add: list_all_iff is_digit_def)

lemma round_decimal_shift:
  "0 \<le> j \<Longrightarrow> round_decimal sg (s * 10 ^ nat j) 0 = round_decimal sg s j"
  by (simp add: round_decimal_def)

lemma literal_format_digits:
  assumes "length (digits_of s) = k"
  shows "\<exists>s' p'. StrUnsignedDecimalLiteral sg (format_digits (s, k, n)) = Some (LitDecimal sg s' p')
           \<and> round_decimal sg s' p' = round_decimal sg s (n - int k)"
proof -
  define ds where "ds = digits_of s"
  have dig: "list_all is_digit ds" and ne: "ds \<noteq> []" and val: "digits_val ds = s" and len: "length ds = k"
    by (simp_all add: ds_def digits_of_all_digits digits_of_not_Nil digits_val_digits_of assms)
  have kpos: "0 < k" using ne len by auto
  consider (ints) "- 5 \<le> n" "n \<le> 21" "int k \<le> n"
    | (point) "- 5 \<le> n" "n \<le> 21" "n < int k" "0 < n"
    | (small) "- 5 \<le> n" "n \<le> 21" "n < int k" "n \<le> 0"
    | (exp1) "\<not> (- 5 \<le> n \<and> n \<le> 21)" "k = 1"
    | (expk) "\<not> (- 5 \<le> n \<and> n \<le> 21)" "k \<noteq> 1"
    by linarith
  then show ?thesis
  proof cases
    case ints
    then have f: "format_digits (s, k, n) = ds @ replicate (nat (n - int k)) 0x30"
      by (simp add: format_digits_def Let_def ds_def)
    have "StrUnsignedDecimalLiteral sg (ds @ replicate (nat (n - int k)) 0x30)
        = Some (LitDecimal sg (s * 10 ^ nat (n - int k)) 0)"
      using literal_digits [of "ds @ replicate (nat (n - int k)) 0x30" sg] ne dig
      by (simp add: all_digits_zeros digits_val_zeros_right val)
    then show ?thesis unfolding f using ints(3) by (simp add: round_decimal_shift)
  next
    case point
    then have f: "format_digits (s, k, n) = take (nat n) ds @ 0x2E # drop (nat n) ds"
      by (simp add: format_digits_def Let_def ds_def str_def)
    have t: "take (nat n) ds \<noteq> []" using point(4) ne by simp
    have td: "list_all is_digit (take (nat n) ds)" "list_all is_digit (drop (nat n) ds)"
      using dig by (auto simp: list_all_iff dest: in_set_takeD in_set_dropD)
    have "StrUnsignedDecimalLiteral sg (take (nat n) ds @ 0x2E # drop (nat n) ds)
        = Some (LitDecimal sg (digits_val (take (nat n) ds @ drop (nat n) ds))
                 (- int (length (drop (nat n) ds))))"
      by (rule literal_point [OF t td])
    moreover have "- int (length (drop (nat n) ds)) = n - int k" using point(3,4) by (simp add: len)
    ultimately show ?thesis unfolding f by (simp add: val)
  next
    case small
    then have f: "format_digits (s, k, n) = [0x30] @ 0x2E # (replicate (nat (- n)) 0x30 @ ds)"
      by (simp add: format_digits_def Let_def ds_def str_def)
    have "StrUnsignedDecimalLiteral sg ([0x30] @ 0x2E # (replicate (nat (- n)) 0x30 @ ds))
        = Some (LitDecimal sg (digits_val ([0x30] @ (replicate (nat (- n)) 0x30 @ ds)))
                 (- int (length (replicate (nat (- n)) 0x30 @ ds))))"
      by (rule literal_point) (simp_all add: not_digit_chars all_digits_zeros dig)
    moreover have "digits_val ([0x30] @ (replicate (nat (- n)) 0x30 @ ds)) = s"
      using digits_val_zeros [of "Suc (nat (- n))" ds] by (simp add: val)
    moreover have "- int (length (replicate (nat (- n)) 0x30 @ ds)) = n - int k"
      using small(4) by (simp add: len)
    ultimately show ?thesis unfolding f by simp
  next
    case exp1
    then have f: "format_digits (s, k, n)
        = ds @ 0x65 # ((if n - 1 < 0 then str ''-'' else str ''+'') @ digits_of (nat \<bar>n - 1\<bar>))"
      by (auto simp: format_digits_def Let_def ds_def str_def)
    have "StrUnsignedDecimalLiteral sg
            (ds @ 0x65 # ((if n - 1 < 0 then str ''-'' else str ''+'') @ digits_of (nat \<bar>n - 1\<bar>)))
        = Some (LitDecimal sg (digits_val ds) (n - 1))"
      by (rule literal_exponent [OF ne dig SignedInteger_exponent])
    then show ?thesis unfolding f using exp1(2) by (simp add: val)
  next
    case expk
    obtain d rest where dr: "ds = d # rest" using ne by (cases ds) auto
    from expk have f: "format_digits (s, k, n)
        = [d] @ 0x2E # rest @ 0x65 # ((if n - 1 < 0 then str ''-'' else str ''+'') @ digits_of (nat \<bar>n - 1\<bar>))"
      by (auto simp: format_digits_def Let_def ds_def [symmetric] dr str_def)
    have d1: "[d] \<noteq> []" "list_all is_digit [d]" "list_all is_digit rest" using dig by (simp_all add: dr)
    have "StrUnsignedDecimalLiteral sg
            ([d] @ 0x2E # rest @ 0x65 # ((if n - 1 < 0 then str ''-'' else str ''+'') @ digits_of (nat \<bar>n - 1\<bar>)))
        = Some (LitDecimal sg (digits_val ([d] @ rest)) (n - 1 - int (length rest)))"
      by (rule literal_point_exponent [OF d1 SignedInteger_exponent])
    moreover have "n - 1 - int (length rest) = n - int k" using len by (simp add: dr)
    ultimately show ?thesis unfolding f using val by (simp add: dr)
  qed
qed

lemma round_decimal_sign:
  "round_decimal False s p = Finite False m e \<Longrightarrow> round_decimal sg s p = Finite sg m e"
proof -
  have r: "round_ratio False a b = Finite False m e \<Longrightarrow> round_ratio sg a b = Finite sg m e" for a b
  proof (cases "a = 0")
    case True
    then show "round_ratio False a b = Finite False m e \<Longrightarrow> round_ratio sg a b = Finite sg m e"
      by (simp add: round_ratio_def)
  next
    case False
    define ee where "ee = max (floor_log2 a b - 52) (- 1074)"
    define mm where "mm = (if 0 \<le> ee then round_half_even a (b * 2 ^ nat ee)
                   else round_half_even (a * 2 ^ nat (- ee)) b)"
    obtain m' e' where p: "(if mm = 2 ^ 53 then (2 ^ 52, ee + 1) else (mm, ee)) = (m', e')"
      by (cases "if mm = 2 ^ 53 then (2 ^ 52, ee + 1) else (mm, ee)") blast
    have "round_ratio g a b = (if 971 < e' then Infinity g else Finite g m' e')" for g
      unfolding round_ratio_def Let_def ee_def [symmetric] mm_def [symmetric] p
      using False by simp
    then show "round_ratio False a b = Finite False m e \<Longrightarrow> round_ratio sg a b = Finite sg m e"
      by (simp split: if_splits)
  qed
  show "round_decimal False s p = Finite False m e \<Longrightarrow> round_decimal sg s p = Finite sg m e"
    by (auto simp: round_decimal_def r split: if_splits)
qed

lemma parseFloat_finite_number:
  assumes "canonical m e" and "0 < m"
  shows "parseFloat (JSNumber (Finite sg m e)) = Finite sg m e"
proof -
  obtain s k n where nd: "number_digits m e = (s, k, n)" by (cases "number_digits m e") auto
  from number_digits_sound [OF assms nd]
  have rt: "round_decimal False s (n - int k) = Finite False m e" and len: "length (digits_of s) = k"
    by simp_all
  define fd where "fd = format_digits (s, k, n)"
  from literal_format_digits [OF len, of sg n] obtain s' p'
    where lit: "StrUnsignedDecimalLiteral sg fd = Some (LitDecimal sg s' p')"
      and same: "round_decimal sg s' p' = round_decimal sg s (n - int k)"
    by (auto simp: fd_def)
  obtain c r where fdc: "fd = c # r" and cd: "is_digit c"
    using format_digits_head [of s k n] by (auto simp: fd_def)
  have cs: "c \<noteq> 0x2B" "c \<noteq> 0x2D" using cd not_digit_chars by auto
  define shown where "shown = (if sg then str ''-'' else []) @ fd"
  have ts: "ToString (JSNumber (Finite sg m e)) = shown"
    using assms(2) by (simp add: Number_toString.simps(3) nd shown_def fd_def)
  have sdl: "StrDecimalLiteral shown = Some (LitDecimal sg s' p')"
  proof (cases sg)
    case True
    then show ?thesis using lit by (simp add: shown_def str_def StrDecimalLiteral_def)
  next
    case False
    then show ?thesis using lit cs by (simp add: shown_def StrDecimalLiteral_def fdc)
  qed
  then have il: "is_StrDecimalLiteral shown" by (simp add: is_StrDecimalLiteral_def)
  have lp: "longest_prefix is_StrDecimalLiteral (TrimString_start shown) = Some shown"
    by (simp add: TrimString_start_literal [OF il] longest_prefix_whole [of is_StrDecimalLiteral shown, OF il])
  have "parseFloat (JSNumber (Finite sg m e)) = round_decimal sg s' p'"
    unfolding parseFloat_def Let_def ts lp by (simp add: sdl)
  also have "\<dots> = Finite sg m e" using same round_decimal_sign [OF rt] by simp
  finally show ?thesis .
qed

lemma parseFloat_number:
  assumes "is_double x"
  shows "parseFloat (JSNumber x) =
           (case x of Finite sg m e \<Rightarrow> if m = 0 then Finite False 0 (- 1074) else x | _ \<Rightarrow> x)"
proof (cases x)
  case NaN
  then show ?thesis by (simp add: parseFloat_def eval_parse eval_chars)
next
  case (Infinity sg)
  then show ?thesis by (cases sg) (simp_all add: parseFloat_def eval_parse eval_chars)
next
  case (Finite sg m e)
  show ?thesis
  proof (cases "m = 0")
    case True
    have "parseFloat (JSNumber (Finite sg 0 e)) = Finite False 0 (- 1074)"
      by (simp add: parseFloat_def Number_toString.simps(3) eval_parse eval_chars eval_round)
    with True Finite show ?thesis by simp
  next
    case False
    with assms Finite parseFloat_finite_number [of m e sg] show ?thesis by simp
  qed
qed

lemma toFixed_minus:
  assumes "0 < m" and "toFixed f (Finite False m e) = Inr t"
  shows "toFixed f (Finite True m e) = Inr (str ''-'' @ t)"
  using assms by (auto simp: toFixed_def Let_def split: if_splits)

lemma toFixed_2_total: "\<exists>t. toFixed 2 x = Inr t"
  by (cases x) (simp_all add: toFixed_def Let_def)

text \<open>
  Claim C10. For every negative Number \<open>x\<close> (a negative double or \<open>-Infinity\<close>),
  \<open>parseFloat\<close> gives \<open>x\<close> back and \<open>formatCurrency(x)\<close> is the glyph, then the minus sign,
  then the text that \<open>toFixed(2)\<close> makes of the magnitude \<open>-x\<close>: the glyph is put in front
  of the rendered value, sign included (\<open>formatCurrency(-5)\<close> is the glyph followed by
  \<open>-5.00\<close>).
\<close>

theorem formatCurrency_negative:
  assumes "is_double x" and "is_negative x"
  shows "parseFloat (JSNumber x) = x
       \<and> (\<exists>digits. toFixed 2 (negate x) = Inr digits
             \<and> formatCurrency (JSNumber x) = Inr ([rupee] @ str ''-'' @ digits))"
proof (cases x)
  case NaN
  with assms(2) show ?thesis by simp
next
  case (Infinity sg)
  with assms(2) have x: "x = Infinity True" by simp
  have p: "parseFloat (JSNumber x) = x" using parseFloat_number [OF assms(1)] by (simp add: x)
  have "toFixed 2 (negate x) = Inr (str ''Infinity'')" by (simp add: x toFixed_def)
  moreover have "formatCurrency (JSNumber x) = Inr ([rupee] @ str ''-'' @ str ''Infinity'')"
    unfolding formatCurrency_def p by (simp add: x toFixed_def str_def)
  ultimately show ?thesis using p by blast
next
  case (Finite sg m e)
  with assms(2) have x: "x = Finite True m e" and mpos: "0 < m" by simp_all
  have p: "parseFloat (JSNumber x) = x" using parseFloat_number [OF assms(1)] mpos by (simp add: x)
  obtain t where t: "toFixed 2 (Finite False m e) = Inr t" using toFixed_2_total by blast
  have "formatCurrency (JSNumber x) = Inr ([rupee] @ str ''-'' @ t)"
    unfolding formatCurrency_def p by (simp add: x toFixed_minus [OF mpos t])
  moreover have "toFixed 2 (negate x) = Inr t" by (simp add: x t)
  ultimately show ?thesis using p by blast
qed

theorem formatCurrency_negative_witness:
  "round_decimal True 5 0 = Finite True 5629499534213120 (- 50)
   \<and> formatCurrency (JSNumber (Finite True 5629499534213120 (- 50))) = Inr (rupee # str ''-5.00'')"
proof -
  have d: "is_double (Finite True 5629499534213120 (- 50))" by (simp add: canonical_def)
  have n: "is_negative (Finite True 5629499534213120 (- 50))" by simp
  have t: "toFixed 2 (Finite False 5629499534213120 (- 50)) = Inr (str ''5.00'')"
    by (simp add: eval_toFixed eval_chars)
  from formatCurrency_negative [OF d n] t
  have "formatCurrency (JSNumber (Finite True 5629499534213120 (- 50))) = Inr (rupee # str ''-5.00'')"
    by (auto simp: str_def)
  moreover have "round_decimal True 5 0 = Finite True 5629499534213120 (- 50)"
    by (simp add: eval_round)
  ultimately show ?thesis by simp
qed

text \<open>
  Every Number that is a double is read back by \<open>parseFloat\<close> as itself, but for \<open>-0\<close>, whose
  text is \<open>0\<close>: \<open>formatCurrency\<close> of a Number formats that very Number.
\<close>

theorem parseFloat_of_number:
  assumes "is_double x"
  shows "parseFloat (JSNumber x) = (if x = Finite True 0 (- 1074) then Finite False 0 (- 1074) else x)"
proof (cases x)
  case (Finite sg m e)
  show ?thesis
  proof (cases "m = 0")
    case True
    with assms Finite have "e = - 1074" by (simp add: canonical_def)
    with True Finite parseFloat_number [OF assms] show ?thesis by (cases sg) simp_all
  next
    case False
    with Finite parseFloat_number [OF assms] show ?thesis by simp
  qed
qed (use parseFloat_number [OF assms] in simp_all)

theorem parseFloat_of_number_witness:
  "parseFloat (JSNumber (Finite True 1 (- 1074))) = Finite True 1 (- 1074)
   \<and> parseFloat (JSNumber (Finite True 0 (- 1074))) = Finite False 0 (- 1074)"
  using parseFloat_of_number [of "Finite True 1 (- 1074)"] parseFloat_of_number [of "Finite True 0 (- 1074)"]
  by (simp add: canonical_def)

subsection \<open>The two decimals, and where they end\<close>

lemma digit_candidate_exponent:
  assumes "digit_candidate x a b n0 k = Some (s, n)"
  shows "n = n0 \<or> n = n0 + 1"
  using assms by (auto simp: digit_candidate_def Let_def split: if_splits prod.splits)

lemma number_digits_exponent:
  assumes "0 < m" and "number_digits m e = (s, k, n)" and "10 ^ 21 \<le> real m * 2 powi e"
  shows "21 < n"
proof -
  define a where "a = (if 0 \<le> e then m * 2 ^ nat e else m)"
  define b where "b = (if 0 \<le> e then 1 else (2::nat) ^ nat (- e))"
  define n0 where "n0 = decimal_exponent a b"
  define kmax where "kmax = nat (if 0 \<le> e then n0 else n0 - e)"
  have apos: "0 < a" and bpos: "0 < b" using assms(1) by (simp_all add: a_def b_def)
  have val: "real a / real b = real m * 2 powi e"
    by (cases "0 \<le> e") (simp_all add: a_def b_def powi_nonneg_nat powi_neg_nat)
  from decimal_exponent_bounds [OF apos bpos]
  have dhi: "real a / real b < 10 powi n0" by (simp add: n0_def)
  have n0: "21 < n0"
  proof (rule ccontr)
    assume "\<not> 21 < n0"
    then have "n0 \<le> 21" by simp
    then have "(10::real) powi n0 \<le> 10 powi 21" by (intro power_int_increasing) simp_all
    also have "\<dots> = 10 ^ 21" by (simp add: powi10_nonneg_nat)
    finally show False using dhi assms(3) val by linarith
  qed
  have nd: "number_digits m e =
      (case shortest_digits (digit_candidate (Finite False m e) a b n0) 1 kmax of
         Some r \<Rightarrow> r
       | None \<Rightarrow> (scaled_floor a b (int kmax - n0), kmax, n0))"
    unfolding number_digits_def Let_def a_def b_def n0_def kmax_def by (rule refl)
  show ?thesis
  proof (cases "shortest_digits (digit_candidate (Finite False m e) a b n0) 1 kmax")
    case (Some r)
    with nd assms(2) have "shortest_digits (digit_candidate (Finite False m e) a b n0) 1 kmax = Some (s, k, n)"
      by simp
    from shortest_digits_Some [OF this]
    have "digit_candidate (Finite False m e) a b n0 k = Some (s, n)" by simp
    from digit_candidate_exponent [OF this] n0 show ?thesis by auto
  next
    case None
    with nd assms(2) have "n = n0" by simp
    with n0 show ?thesis by simp
  qed
qed

lemma format_digits_exponent:
  assumes "21 < n"
  shows "format_digits (s, k, n) =
           (if k = 1 then digits_of s else [hd (digits_of s)] @ str ''.'' @ tl (digits_of s))
           @ str ''e+'' @ digits_of (nat (n - 1))"
  using assms by (simp add: format_digits_def Let_def str_def)

lemma is_two_decimal_chars:
  assumes "is_two_decimal cs" and "c \<in> set cs"
  shows "c = 0x2D \<or> c = 0x2E \<or> is_digit c"
proof -
  define body where "body = (case cs of [] \<Rightarrow> [] | c # r \<Rightarrow> if c = 0x2D then r else cs)"
  from assms(1) have ip: "takeWhile is_digit body \<noteq> []"
    and r: "(case dropWhile is_digit body of [d, a, b] \<Rightarrow> d = 0x2E \<and> is_digit a \<and> is_digit b | _ \<Rightarrow> False)"
    by (simp_all add: is_two_decimal_def Let_def body_def)
  from r obtain d a b where dw: "dropWhile is_digit body = [d, a, b]" and d: "d = 0x2E"
    and ab: "is_digit a" "is_digit b"
    by (auto split: list.splits)
  have "body = takeWhile is_digit body @ dropWhile is_digit body" by simp
  then have sb: "set body = set (takeWhile is_digit body) \<union> {d, a, b}"
    by (metis dw set_append list.simps(15) empty_set insert_is_Un Un_insert_right sup_bot.right_neutral)
  have tw: "x \<in> set (takeWhile is_digit body) \<Longrightarrow> is_digit x" for x
    by (rule set_takeWhileD [THEN conjunct2])
  have inbody: "x \<in> set body \<Longrightarrow> x = 0x2E \<or> is_digit x" for x
    using sb tw d ab by auto
  have "c = 0x2D \<or> c \<in> set body"
    using assms(2) by (cases cs) (auto simp: body_def split: if_splits)
  with inbody show ?thesis by blast
qed

lemma is_two_decimal_no_exponent: "is_two_decimal cs \<Longrightarrow> 0x65 \<notin> set cs"
  using is_two_decimal_chars [of cs "0x65"] by (auto simp: is_digit_def)

lemma Number_toString_large:
  assumes "10 ^ 21 \<le> real m * 2 powi e"
  shows "\<exists>mantissa ex. Number_toString (Finite sg m e)
             = (if sg then str ''-'' else []) @ mantissa @ str ''e+'' @ digits_of ex
           \<and> mantissa \<noteq> [] \<and> list_all (\<lambda>c. is_digit c \<or> c = 0x2E) mantissa \<and> 21 \<le> ex"
proof -
  have mpos: "0 < m" using assms by (cases "m = 0") simp_all
  obtain s k n where nd: "number_digits m e = (s, k, n)" by (cases "number_digits m e") auto
  from number_digits_exponent [OF mpos nd assms] have n: "21 < n" .
  then have ex: "21 \<le> nat (n - 1)" by simp
  define mantissa where
    "mantissa = (if k = 1 then digits_of s else [hd (digits_of s)] @ str ''.'' @ tl (digits_of s))"
  obtain d rest where ds: "digits_of s = d # rest" "is_digit d"
    using digits_of_head by blast
  have "list_all is_digit rest" using digits_of_all_digits [of s] by (simp add: ds)
  then have rest: "list_all (\<lambda>c. is_digit c \<or> c = 0x2E) rest"
    by (simp add: list_all_iff)
  have shape: "mantissa \<noteq> []" "list_all (\<lambda>c. is_digit c \<or> c = 0x2E) mantissa"
    using ds(2) rest by (simp_all add: mantissa_def ds str_def)
  have "Number_toString (Finite sg m e)
      = (if sg then str ''-'' else []) @ mantissa @ str ''e+'' @ digits_of (nat (n - 1))"
    using mpos by (simp add: Number_toString.simps(3) nd format_digits_exponent [OF n] mantissa_def)
  with ex shape show ?thesis by blast
qed

lemma toFixed_2_large:
  assumes "ge_1e21 m e"
  shows "toFixed 2 (Finite sg m e) = Inr (Number_toString (Finite sg m e))"
proof -
  have "m \<noteq> 0" using assms by (cases "m = 0") (auto simp: ge_1e21_def split: if_splits)
  then show ?thesis using assms by (simp add: toFixed_def Let_def Number_toString.simps(3))
qed

lemma toFixed_2_small:
  assumes "is_finite x" and "\<bar>valof x\<bar> < 10 ^ 21"
  shows "toFixed 2 x =
           Inr ((if valof x < 0 then str ''-'' else []) @ two_decimals (nat \<lfloor>\<bar>valof x\<bar> * 100 + 1 / 2\<rfloor>))"
proof -
  from assms(1) obtain sg m e where x: "x = Finite sg m e" by (cases x) simp_all
  have small: "\<not> ge_1e21 m e"
    using assms(2) by (simp add: x ge_1e21_iff abs_valof_Finite del: valof.simps)
  have n: "nat \<lfloor>\<bar>valof x\<bar> * 100 + 1 / 2\<rfloor> = fixed_integer 2 m e"
    using fixed_integer_floor [of 2 m e] by (simp add: x abs_valof_Finite del: valof.simps)
  have sgn: "(valof x < 0) = (sg \<and> m \<noteq> 0)"
    by (simp add: x valof_neg_iff del: valof.simps)
  show ?thesis
    unfolding n sgn by (simp add: x toFixed_2_finite [OF small])
qed

lemma nearest_hundredth: "\<bar>real (nat \<lfloor>\<bar>v\<bar> * 100 + 1 / 2\<rfloor>) - \<bar>v\<bar> * 100\<bar> \<le> 1 / 2"
proof -
  have "0 \<le> \<bar>v\<bar> * 100 + 1 / 2" by simp
  then have "real (nat \<lfloor>\<bar>v\<bar> * 100 + 1 / 2\<rfloor>) = of_int \<lfloor>\<bar>v\<bar> * 100 + 1 / 2\<rfloor>"
    by simp
  then show ?thesis by linarith
qed

lemma Infinity_not_two_decimal:
  "\<not> is_two_decimal (str ''Infinity'')" "\<not> is_two_decimal (str ''-Infinity'')"
  by (simp_all add: is_two_decimal_def eval_chars)

text \<open>
  Claim C1, as amended. Let \<open>x\<close> be the Number that the amount parses to.
  \<^item> When \<open>x\<close> is finite and of magnitude below \<open>10^21\<close>, \<open>formatCurrency\<close> returns the glyph
    U+20B9 immediately followed by a minus sign if \<open>x\<close> is negative, the integer digits, the
    point and exactly two digits: the text of \<open>n\<close> hundredths, where \<open>n\<close> is \<open>|x| * 100\<close>
    rounded to the nearest integer, a half rounded away from zero. Nothing of the host's
    locale enters.
  \<^item> When \<open>x\<close> is finite and of magnitude \<open>10^21\<close> or more, the text after the glyph is the
    Number's own text, which is in exponent notation (a minus sign if \<open>x\<close> is negative, a
    mantissa of digits with at most one point, \<open>e+\<close> and an exponent of 21 or more) and has
    not the two-decimal form.
  \<^item> When \<open>x\<close> is an infinity, the text after the glyph is the Number's own text,
    \<open>Infinity\<close> or \<open>-Infinity\<close>.
\<close>

theorem formatCurrency_two_decimals:
  assumes "parseFloat amount = x"
  shows "(is_finite x \<and> \<bar>valof x\<bar> < 10 ^ 21 \<longrightarrow>
           (let n = nat \<lfloor>\<bar>valof x\<bar> * 100 + 1 / 2\<rfloor>;
                text = (if valof x < 0 then str ''-'' else []) @ two_decimals n
            in formatCurrency amount = Inr (rupee # text) \<and> is_two_decimal text
               \<and> \<bar>real n - \<bar>valof x\<bar> * 100\<bar> \<le> 1 / 2))
       \<and> (is_finite x \<and> 10 ^ 21 \<le> \<bar>valof x\<bar> \<longrightarrow>
            formatCurrency amount = Inr (rupee # Number_toString x)
            \<and> (\<exists>mantissa ex.
                  Number_toString x
                    = (if valof x < 0 then str ''-'' else []) @ mantissa @ str ''e+'' @ digits_of ex
                  \<and> mantissa \<noteq> [] \<and> list_all (\<lambda>c. is_digit c \<or> c = 0x2E) mantissa \<and> 21 \<le> ex)
            \<and> \<not> is_two_decimal (Number_toString x))
       \<and> (x = Infinity sg \<longrightarrow>
            formatCurrency amount = Inr (rupee # Number_toString x)
            \<and> Number_toString x = (if sg then str ''-Infinity'' else str ''Infinity'')
            \<and> \<not> is_two_decimal (Number_toString x))"
proof (intro conjI impI)
  assume a: "is_finite x \<and> \<bar>valof x\<bar> < 10 ^ 21"
  then have "toFixed 2 x =
      Inr ((if valof x < 0 then str ''-'' else []) @ two_decimals (nat \<lfloor>\<bar>valof x\<bar> * 100 + 1 / 2\<rfloor>))"
    by (intro toFixed_2_small) simp_all
  then have fc: "formatCurrency amount =
      Inr (rupee # (if valof x < 0 then str ''-'' else []) @ two_decimals (nat \<lfloor>\<bar>valof x\<bar> * 100 + 1 / 2\<rfloor>))"
    by (simp add: formatCurrency_def assms)
  show "let n = nat \<lfloor>\<bar>valof x\<bar> * 100 + 1 / 2\<rfloor>;
            text = (if valof x < 0 then str ''-'' else []) @ two_decimals n
        in formatCurrency amount = Inr (rupee # text) \<and> is_two_decimal text
           \<and> \<bar>real n - \<bar>valof x\<bar> * 100\<bar> \<le> 1 / 2"
    unfolding Let_def
    using fc nearest_hundredth [of "valof x"]
      is_two_decimal_two_decimals [of "valof x < 0" "nat \<lfloor>\<bar>valof x\<bar> * 100 + 1 / 2\<rfloor>"]
    by blast
next
  assume a: "is_finite x \<and> 10 ^ 21 \<le> \<bar>valof x\<bar>"
  then obtain g m e where x: "x = Finite g m e" by (cases x) simp_all
  from a have big: "10 ^ 21 \<le> real m * 2 powi e"
    by (simp add: x abs_valof_Finite del: valof.simps)
  then have ge: "ge_1e21 m e" by (simp add: ge_1e21_iff)
  have mpos: "m \<noteq> 0" using big by (cases "m = 0") simp_all
  have sgn: "(valof x < 0) = g"
    using mpos by (simp add: x valof_neg_iff del: valof.simps)
  show "formatCurrency amount = Inr (rupee # Number_toString x)"
    by (simp add: formatCurrency_def assms x toFixed_2_large [OF ge])
  from Number_toString_large [OF big, of g] obtain mantissa ex
    where t: "Number_toString x = (if g then str ''-'' else []) @ mantissa @ str ''e+'' @ digits_of ex"
      and m: "mantissa \<noteq> []" "list_all (\<lambda>c. is_digit c \<or> c = 0x2E) mantissa" and ex: "21 \<le> ex"
    unfolding x by blast
  then show "\<exists>mantissa ex.
      Number_toString x = (if valof x < 0 then str ''-'' else []) @ mantissa @ str ''e+'' @ digits_of ex
      \<and> mantissa \<noteq> [] \<and> list_all (\<lambda>c. is_digit c \<or> c = 0x2E) mantissa \<and> 21 \<le> ex"
    unfolding sgn by blast
  have "0x65 \<in> set (Number_toString x)" unfolding t by (simp add: str_def)
  then show "\<not> is_two_decimal (Number_toString x)"
    using is_two_decimal_no_exponent by blast
next
  assume x: "x = Infinity sg"
  show "formatCurrency amount = Inr (rupee # Number_toString x)"
    by (simp add: formatCurrency_def assms x toFixed_def)
  show "Number_toString x = (if sg then str ''-Infinity'' else str ''Infinity'')"
    by (simp add: x)
  show "\<not> is_two_decimal (Number_toString x)"
    using Infinity_not_two_decimal by (simp add: x)
qed

lemma parseFloat_text_0125: "parseFloat (JSString (str ''-0.125'')) = Finite True 4503599627370496 (- 55)"
  by (simp add: parseFloat_def eval_parse eval_chars eval_round)

lemma valof_0125: "valof (Finite True 4503599627370496 (- 55)) = - 1 / 8"
  by (simp add: powi_neg_nat)

lemma Number_toString_minus_1e21: "Number_toString (Finite True 7629394531250000 17) = str ''-1e+21''"
  by (simp add: eval_toString eval_round eval_chars)

lemma parseFloat_text_minus_1e21:
  "parseFloat (JSString (str ''-1e21'')) = Finite True 7629394531250000 17"
  by (simp add: parseFloat_def eval_parse eval_chars eval_round)

lemma valof_minus_1e21: "valof (Finite True 7629394531250000 17) = - (10 ^ 21)"
  by (simp add: power_int_def)

lemma parseFloat_text_Infinity: "parseFloat (JSString (str ''-Infinity'')) = Infinity True"
  by (simp add: parseFloat_def eval_parse eval_chars)

theorem formatCurrency_two_decimals_witness:
  "formatCurrency (JSString (str ''-0.125'')) = Inr (rupee # str ''-0.13'')
   \<and> formatCurrency (JSString (str ''-1e21'')) = Inr (rupee # str ''-1e+21'')
   \<and> formatCurrency (JSString (str ''-Infinity'')) = Inr (rupee # str ''-Infinity'')"
proof -
  have "formatCurrency (JSString (str ''-0.125'')) = Inr (rupee # str ''-0.13'')"
    using formatCurrency_two_decimals [OF parseFloat_text_0125, THEN conjunct1]
    by (simp add: valof_0125 two_decimals_def digits_of.simps Let_def del: valof.simps)
      (simp add: eval_chars)
  moreover have "formatCurrency (JSString (str ''-1e21'')) = Inr (rupee # str ''-1e+21'')"
    using formatCurrency_two_decimals [OF parseFloat_text_minus_1e21, THEN conjunct2, THEN conjunct1]
    by (simp add: valof_minus_1e21 Number_toString_minus_1e21 del: valof.simps)
  moreover have "formatCurrency (JSString (str ''-Infinity'')) = Inr (rupee # str ''-Infinity'')"
    using formatCurrency_two_decimals [OF parseFloat_text_Infinity, of True, THEN conjunct2, THEN conjunct2]
    by simp
  ultimately show ?thesis by blast
qed

lemma Number_toString_1e21: "Number_toString (Finite False 7629394531250000 17) = str ''1e+21''"
  by (simp add: eval_toString eval_round eval_chars)

lemma parseFloat_1e21:
  "parseFloat (JSNumber (Finite False 7629394531250000 17)) = Finite False 7629394531250000 17"
  unfolding parseFloat_def by (simp add: Number_toString_1e21) (simp add: eval_parse eval_chars eval_round)

theorem formatCurrency_1e21_counterexample:
  "is_double (Finite False 7629394531250000 17)
   \<and> valof (Finite False 7629394531250000 17) = 10 ^ 21
   \<and> formatCurrency (JSNumber (Finite False 7629394531250000 17)) = Inr (rupee # str ''1e+21'')
   \<and> \<not> is_two_decimal (str ''1e+21'')"
proof -
  have "formatCurrency (JSNumber (Finite False 7629394531250000 17)) = Inr (rupee # str ''1e+21'')"
    unfolding formatCurrency_def parseFloat_1e21 by (simp add: toFixed_def ge_1e21_def Number_toString_1e21)
  moreover have "\<not> is_two_decimal (str ''1e+21'')"
    by (simp add: is_two_decimal_def eval_chars)
  moreover have "valof (Finite False 7629394531250000 17) = 10 ^ 21"
    by (simp add: power_int_def)
  moreover have "is_double (Finite False 7629394531250000 17)"
    by (simp add: canonical_def)
  ultimately show ?thesis by blast
qed

subsection \<open>The value of a numeric prefix\<close>

lemma round_ratio_integer:
  assumes "0 < n" and "n < 2 ^ 53"
  shows "\<exists>m e. round_ratio sg n 1 = Finite sg m e \<and> real m * 2 powi e = real n"
proof -
  define bl where "bl = bitlen n"
  from bitlen_bounds [OF assms(1)] have lo: "2 ^ (bl - 1) \<le> n" and hi: "n < 2 ^ bl"
    by (simp_all add: bl_def)
  have blpos: "0 < bl" using bitlen_pos [OF assms(1)] by (simp add: bl_def)
  have bl53: "bl \<le> 53"
  proof (rule ccontr)
    assume "\<not> bl \<le> 53"
    then have "53 \<le> bl - 1" by simp
    then have "(2::nat) ^ 53 \<le> 2 ^ (bl - 1)" by (intro power_increasing) simp_all
    with lo assms(2) show False by linarith
  qed
  define k where "k = 53 - bl"
  define m where "m = n * 2 ^ k"
  have blk: "bl + k = 53" "(bl - 1) + k = 52" using bl53 blpos by (simp_all add: k_def)
  have "m < 2 ^ bl * 2 ^ k" using hi by (simp add: m_def)
  also have "\<dots> = 2 ^ 53" by (simp only: blk(1) flip: power_add)
  finally have m_hi: "m < 2 ^ 53" .
  have "(2::nat) ^ 52 = 2 ^ (bl - 1) * 2 ^ k" by (simp only: blk(2) flip: power_add)
  also have "\<dots> \<le> m" using lo by (simp add: m_def)
  finally have m_lo: "2 ^ 52 \<le> m" .
  have k52: "k \<le> 52" using blpos by (simp add: k_def)
  have can: "canonical m (- int k)"
    using m_hi m_lo k52 by (simp add: canonical_def)
  have val: "real m * 2 powi (- int k) = real n"
    by (simp add: m_def power_int_minus_divide)
  then have "real n / real 1 = real m * 2 powi (- int k)" by simp
  from round_ratio_exact [OF can assms(1) _ this, of sg]
  have "round_ratio sg n 1 = Finite sg m (- int k)" by simp
  with val show ?thesis by blast
qed

lemma round_decimal_integer:
  assumes "n < 2 ^ 53"
  shows "is_finite (round_decimal False n 0) \<and> valof (round_decimal False n 0) = real n"
proof (cases "n = 0")
  case True
  then show ?thesis by (simp add: round_decimal_def round_ratio_def)
next
  case False
  then have "0 < n" by simp
  from round_ratio_integer [OF this assms, of False] obtain m e
    where "round_ratio False n 1 = Finite False m e" "real m * 2 powi e = real n" by blast
  then show ?thesis by (simp add: round_decimal_def)
qed

lemma two_decimals_integer: "two_decimals (n * 100) = digits_of n @ str ''.00''"
  by (simp add: two_decimals_def digit_char_def str_def)

lemma toFixed_2_integer:
  assumes "is_finite x" and "valof x = real n" and "n < 2 ^ 53"
  shows "toFixed 2 x = Inr (digits_of n @ str ''.00'')"
proof -
  have "real n < 2 ^ 53" using assms(3) by (metis of_nat_less_iff of_nat_numeral of_nat_power)
  also have "\<dots> \<le> (10::real) ^ 21" by simp
  finally have small: "\<bar>valof x\<bar> < 10 ^ 21" by (simp add: assms(2))
  have "\<bar>real n\<bar> * 100 + 1 / 2 = of_int (int (n * 100)) + 1 / 2" by simp
  also have "\<lfloor>\<dots>\<rfloor> = int (n * 100)" by (rule floor_unique) simp_all
  finally have fl: "nat \<lfloor>\<bar>real n\<bar> * 100 + 1 / 2\<rfloor> = n * 100" by simp
  from toFixed_2_small [OF assms(1) small]
  have "toFixed 2 x = Inr ((if real n < 0 then str ''-'' else [])
      @ two_decimals (nat \<lfloor>\<bar>real n\<bar> * 100 + 1 / 2\<rfloor>))"
    by (simp only: assms(2))
  then have "toFixed 2 x = Inr ((if real n < 0 then str ''-'' else []) @ two_decimals (n * 100))"
    by (simp only: fl)
  then show ?thesis by (simp add: two_decimals_integer)
qed

lemma parseFloat_longest_prefix:
  assumes "longest_prefix is_StrDecimalLiteral (TrimString_start t) = Some p"
    and "StrDecimalLiteral p = Some lit"
  shows "parseFloat (JSString t) = StringNumericValue lit"
  using assms by (simp add: parseFloat_def)

lemma formatCurrency_of_value:
  assumes "parseFloat amount = x" and "toFixed 2 x = Inr digits"
  shows "formatCurrency amount = Inr (rupee # digits)"
  using assms by (simp add: formatCurrency_def)

text \<open>
  Claim C9. When the text \<open>t\<close>, after its leading white space, starts with a decimal literal,
  and \<open>p\<close> is the longest such prefix, then \<open>formatCurrency(t)\<close> is the glyph followed by the
  two-decimal text of the value of \<open>p\<close>, whatever follows \<open>p\<close>: it is \<open>formatCurrency(p)\<close>, and
  it is not the NaN text. In particular a decimal literal \<open>p\<close> followed by a non-numeric
  remainder \<open>r\<close> is formatted as \<open>p\<close> alone: the text after the glyph is \<open>toFixed(2)\<close> of the
  Number value of \<open>p\<close>, which for a finite value below \<open>10^21\<close> is that value in hundredths,
  and for digits \<open>p\<close> denoting an integer below \<open>2^53\<close> it is the integer followed by \<open>.00\<close>
  (so \<open>"42abc"\<close> gives the glyph followed by \<open>42.00\<close>). The result is the glyph followed by
  \<open>NaN\<close> exactly when no prefix at all is a decimal literal.
\<close>

theorem formatCurrency_numeric_prefix:
  "(longest_prefix is_StrDecimalLiteral (TrimString_start t) = Some p \<longrightarrow>
      (\<exists>r. TrimString_start t = p @ r)
      \<and> is_StrDecimalLiteral p
      \<and> (\<forall>q r. TrimString_start t = q @ r \<and> is_StrDecimalLiteral q \<longrightarrow> length q \<le> length p)
      \<and> formatCurrency (JSString t) = formatCurrency (JSString p)
      \<and> formatCurrency (JSString t) \<noteq> Inr (rupee # str ''NaN'')
      \<and> (\<exists>value digits. StrDecimalLiteral p = Some value
            \<and> toFixed 2 (StringNumericValue value) = Inr digits
            \<and> formatCurrency (JSString t) = Inr (rupee # digits)))
   \<and> (is_StrDecimalLiteral p \<and> (r = [] \<or> \<not> continues_number (hd r)) \<longrightarrow>
        formatCurrency (JSString (p @ r)) = formatCurrency (JSString p)
        \<and> formatCurrency (JSString (p @ r)) \<noteq> Inr (rupee # str ''NaN''))
   \<and> (StrDecimalLiteral p = Some lit \<and> (r = [] \<or> \<not> continues_number (hd r)) \<longrightarrow>
        parseFloat (JSString (p @ r)) = StringNumericValue lit
        \<and> (\<exists>digits. toFixed 2 (StringNumericValue lit) = Inr digits
              \<and> formatCurrency (JSString (p @ r)) = Inr (rupee # digits))
        \<and> (is_finite (StringNumericValue lit) \<and> \<bar>valof (StringNumericValue lit)\<bar> < 10 ^ 21 \<longrightarrow>
              formatCurrency (JSString (p @ r))
                = Inr (rupee # (if valof (StringNumericValue lit) < 0 then str ''-'' else [])
                        @ two_decimals (nat \<lfloor>\<bar>valof (StringNumericValue lit)\<bar> * 100 + 1 / 2\<rfloor>))))
   \<and> (p \<noteq> [] \<and> list_all is_digit p \<and> digits_val p < 2 ^ 53
        \<and> (r = [] \<or> \<not> continues_number (hd r)) \<longrightarrow>
        formatCurrency (JSString (p @ r)) = Inr (rupee # digits_of (digits_val p) @ str ''.00''))
   \<and> ((formatCurrency (JSString t) = Inr (rupee # str ''NaN''))
        = (\<forall>q r. TrimString_start t = q @ r \<longrightarrow> \<not> is_StrDecimalLiteral q))"
proof -
  have only: "(formatCurrency (JSString t) = Inr (rupee # str ''NaN''))
        = (\<forall>q r. TrimString_start t = q @ r \<longrightarrow> \<not> is_StrDecimalLiteral q)"
    by (simp add: formatCurrency_NaN_iff parseFloat_NaN_iff longest_prefix_None)
  have pre: "(\<exists>r. TrimString_start t = p @ r)
      \<and> is_StrDecimalLiteral p
      \<and> (\<forall>q r. TrimString_start t = q @ r \<and> is_StrDecimalLiteral q \<longrightarrow> length q \<le> length p)
      \<and> formatCurrency (JSString t) = formatCurrency (JSString p)
      \<and> formatCurrency (JSString t) \<noteq> Inr (rupee # str ''NaN'')
      \<and> (\<exists>value digits. StrDecimalLiteral p = Some value
            \<and> toFixed 2 (StringNumericValue value) = Inr digits
            \<and> formatCurrency (JSString t) = Inr (rupee # digits))"
    if lp: "longest_prefix is_StrDecimalLiteral (TrimString_start t) = Some p" for t
  proof -
    have same: "formatCurrency (JSString t) = formatCurrency (JSString p)"
      by (simp add: formatCurrency_def parseFloat_prefix [OF lp])
    have noNaN: "formatCurrency (JSString t) \<noteq> Inr (rupee # str ''NaN'')"
      using lp by (simp add: formatCurrency_NaN_iff parseFloat_NaN_iff)
    from longest_prefix_Some [OF lp] have "is_StrDecimalLiteral p" by blast
    then obtain v where v: "StrDecimalLiteral p = Some v"
      by (auto simp: is_StrDecimalLiteral_def)
    obtain digits where d: "toFixed 2 (StringNumericValue v) = Inr digits"
      using toFixed_2_total by blast
    from formatCurrency_of_value [OF parseFloat_longest_prefix [OF lp v] d] v d
    have "\<exists>value digits. StrDecimalLiteral p = Some value
            \<and> toFixed 2 (StringNumericValue value) = Inr digits
            \<and> formatCurrency (JSString t) = Inr (rupee # digits)" by blast
    with same noNaN show ?thesis using longest_prefix_Some [OF lp] by blast
  qed
  have stop: "formatCurrency (JSString (p @ r)) = formatCurrency (JSString p)
        \<and> formatCurrency (JSString (p @ r)) \<noteq> Inr (rupee # str ''NaN'')"
    if "is_StrDecimalLiteral p" "r = [] \<or> \<not> continues_number (hd r)"
    using pre [OF numeric_prefix_stops [OF that]] by blast
  have val: "parseFloat (JSString (p @ r)) = StringNumericValue lit
        \<and> (\<exists>digits. toFixed 2 (StringNumericValue lit) = Inr digits
              \<and> formatCurrency (JSString (p @ r)) = Inr (rupee # digits))
        \<and> (is_finite (StringNumericValue lit) \<and> \<bar>valof (StringNumericValue lit)\<bar> < 10 ^ 21 \<longrightarrow>
              formatCurrency (JSString (p @ r))
                = Inr (rupee # (if valof (StringNumericValue lit) < 0 then str ''-'' else [])
                        @ two_decimals (nat \<lfloor>\<bar>valof (StringNumericValue lit)\<bar> * 100 + 1 / 2\<rfloor>)))"
    if lit: "StrDecimalLiteral p = Some lit" and r: "r = [] \<or> \<not> continues_number (hd r)"
  proof -
    from lit have "is_StrDecimalLiteral p" by (simp add: is_StrDecimalLiteral_def)
    from parseFloat_longest_prefix [OF numeric_prefix_stops [OF this r] lit]
    have pf: "parseFloat (JSString (p @ r)) = StringNumericValue lit" .
    obtain digits where d: "toFixed 2 (StringNumericValue lit) = Inr digits"
      using toFixed_2_total by blast
    have small: "formatCurrency (JSString (p @ r))
                = Inr (rupee # (if valof (StringNumericValue lit) < 0 then str ''-'' else [])
                        @ two_decimals (nat \<lfloor>\<bar>valof (StringNumericValue lit)\<bar> * 100 + 1 / 2\<rfloor>))"
      if "is_finite (StringNumericValue lit)" "\<bar>valof (StringNumericValue lit)\<bar> < 10 ^ 21"
      by (rule formatCurrency_of_value [OF pf toFixed_2_small [OF that]])
    from pf formatCurrency_of_value [OF pf d] d small show ?thesis by blast
  qed
  have whole: "formatCurrency (JSString (p @ r)) = Inr (rupee # digits_of (digits_val p) @ str ''.00'')"
    if p: "p \<noteq> []" "list_all is_digit p" and n: "digits_val p < 2 ^ 53"
      and r: "r = [] \<or> \<not> continues_number (hd r)"
  proof -
    obtain c u where cu: "p = c # u" "is_digit c" using p by (cases p) auto
    then have "c \<noteq> 0x2B" "c \<noteq> 0x2D" using not_digit_chars by auto
    then have lit: "StrDecimalLiteral p = Some (LitDecimal False (digits_val p) 0)"
      using literal_digits [OF p, of False] by (simp add: StrDecimalLiteral_def cu(1))
    then have il: "is_StrDecimalLiteral p" by (simp add: is_StrDecimalLiteral_def)
    from parseFloat_longest_prefix [OF numeric_prefix_stops [OF il r] lit]
    have pf: "parseFloat (JSString (p @ r)) = round_decimal False (digits_val p) 0" by simp
    from round_decimal_integer [OF n]
    have "toFixed 2 (round_decimal False (digits_val p) 0) = Inr (digits_of (digits_val p) @ str ''.00'')"
      by (intro toFixed_2_integer [OF _ _ n]) simp_all
    from formatCurrency_of_value [OF pf this] show ?thesis .
  qed
  from only pre [of t] stop val whole show ?thesis by blast
qed

lemma literal_42: "StrDecimalLiteral (str ''42'') = Some (LitDecimal False 42 0)"
  by (simp add: eval_parse eval_chars)

lemma literal_minus_1_5: "StrDecimalLiteral (str ''-1.5'') = Some (LitDecimal True 15 (- 1))"
  by (simp add: eval_parse eval_chars)

lemma double_minus_1_5: "round_decimal True 15 (- 1) = Finite True 6755399441055744 (- 52)"
  by (simp add: eval_round)

lemma valof_minus_1_5: "valof (Finite True 6755399441055744 (- 52)) = - 3 / 2"
  by (simp add: powi_neg_nat)

lemma not_continuing: "\<not> continues_number (hd (str ''abc''))" "\<not> continues_number (hd (str ''kg''))"
  by (simp_all add: continues_number_def eval_chars)

theorem formatCurrency_numeric_prefix_witness:
  "longest_prefix is_StrDecimalLiteral (TrimString_start (str ''42abc'')) = Some (str ''42'')
   \<and> formatCurrency (JSString (str ''42abc'')) = formatCurrency (JSString (str ''42''))
   \<and> is_StrDecimalLiteral (str ''42'') \<and> \<not> continues_number (hd (str ''abc''))
   \<and> formatCurrency (JSString (str ''42'' @ str ''abc'')) \<noteq> Inr (rupee # str ''NaN'')
   \<and> formatCurrency (JSString (str ''42abc'')) = Inr (rupee # str ''42.00'')
   \<and> formatCurrency (JSString (str ''7abc'')) = Inr (rupee # str ''7.00'')
   \<and> formatCurrency (JSString (str ''-1.5kg'')) = Inr (rupee # str ''-1.50'')"
proof -
  have lit: "is_StrDecimalLiteral (str ''42'')"
    by (simp add: is_StrDecimalLiteral_def literal_42)
  have split: "str ''42abc'' = str ''42'' @ str ''abc''" "str ''7abc'' = str ''7'' @ str ''abc''"
    "str ''-1.5kg'' = str ''-1.5'' @ str ''kg''"
    by (simp_all add: str_def)
  have lp: "longest_prefix is_StrDecimalLiteral (TrimString_start (str ''42abc'')) = Some (str ''42'')"
    unfolding split using numeric_prefix_stops [OF lit, of "str ''abc''"] not_continuing by simp
  from formatCurrency_numeric_prefix [where t = "str ''42abc''" and p = "str ''42''", THEN conjunct1] lp
  have a: "formatCurrency (JSString (str ''42abc'')) = formatCurrency (JSString (str ''42''))"
    by blast
  from formatCurrency_numeric_prefix [where p = "str ''42''" and r = "str ''abc''", THEN conjunct2, THEN conjunct1]
    lit not_continuing(1)
  have a2: "formatCurrency (JSString (str ''42'' @ str ''abc'')) \<noteq> Inr (rupee # str ''NaN'')"
    by blast
  have d42: "str ''42'' \<noteq> [] \<and> list_all is_digit (str ''42'') \<and> digits_val (str ''42'') = 42"
    by (simp add: eval_chars)
  have d7: "str ''7'' \<noteq> [] \<and> list_all is_digit (str ''7'') \<and> digits_val (str ''7'') = 7"
    by (simp add: eval_chars)
  have t42: "digits_of 42 @ str ''.00'' = str ''42.00''" "digits_of 7 @ str ''.00'' = str ''7.00''"
    by (simp_all add: digits_of.simps eval_chars)
  have whole: "p \<noteq> [] \<and> list_all is_digit p \<and> digits_val p < 2 ^ 53
        \<and> (r = [] \<or> \<not> continues_number (hd r)) \<longrightarrow>
        formatCurrency (JSString (p @ r)) = Inr (rupee # digits_of (digits_val p) @ str ''.00'')" for p r
    using formatCurrency_numeric_prefix [where p = p and r = r] by blast
  have b: "formatCurrency (JSString (str ''42abc'')) = Inr (rupee # str ''42.00'')"
    unfolding split using whole [of "str ''42''" "str ''abc''"] d42 not_continuing t42 by simp
  have c: "formatCurrency (JSString (str ''7abc'')) = Inr (rupee # str ''7.00'')"
    unfolding split using whole [of "str ''7''" "str ''abc''"] d7 not_continuing t42 by simp
  have frac: "StrDecimalLiteral p = Some lit \<and> (r = [] \<or> \<not> continues_number (hd r)) \<longrightarrow>
        (is_finite (StringNumericValue lit) \<and> \<bar>valof (StringNumericValue lit)\<bar> < 10 ^ 21 \<longrightarrow>
              formatCurrency (JSString (p @ r))
                = Inr (rupee # (if valof (StringNumericValue lit) < 0 then str ''-'' else [])
                        @ two_decimals (nat \<lfloor>\<bar>valof (StringNumericValue lit)\<bar> * 100 + 1 / 2\<rfloor>)))" for p r lit
    using formatCurrency_numeric_prefix [where p = p and r = r and lit = lit] by blast
  have "\<bar>- 3 / 2 :: real\<bar> * 100 + 1 / 2 = of_int 150 + 1 / 2" by simp
  also have "\<lfloor>\<dots>\<rfloor> = 150" by (rule floor_unique) simp_all
  finally have fl: "nat \<lfloor>\<bar>- 3 / 2 :: real\<bar> * 100 + 1 / 2\<rfloor> = 150" by simp
  have t150: "str ''-'' @ two_decimals 150 = str ''-1.50''"
    by (simp add: two_decimals_def digits_of.simps eval_chars)
  from frac [of "str ''-1.5''" "LitDecimal True 15 (- 1)" "str ''kg''"] literal_minus_1_5 not_continuing(2)
  have "formatCurrency (JSString (str ''-1.5'' @ str ''kg''))
      = Inr (rupee # (if valof (Finite True 6755399441055744 (- 52)) < 0 then str ''-'' else [])
              @ two_decimals (nat \<lfloor>\<bar>valof (Finite True 6755399441055744 (- 52))\<bar> * 100 + 1 / 2\<rfloor>))"
    by (simp add: double_minus_1_5 valof_minus_1_5 del: valof.simps)
  then have d: "formatCurrency (JSString (str ''-1.5kg'')) = Inr (rupee # str ''-1.50'')"
    unfolding split valof_minus_1_5 fl using t150 by simp
  from lp a a2 lit not_continuing(1) b c d show ?thesis by blast
qed

section \<open>Properties of the initializer\<close>

lemma forEach_alert_eq:
  "forEach_alert as s =
     s\<lparr>timers := timers s @ map (\<lambda>(i, alert). \<lparr>timer_id = i, fires_at = clock s + 5000, action = CloseAlert alert\<rparr>)
                                (enumerate (next_timer s) as),
       next_timer := next_timer s + length as\<rparr>"
proof (induction as arbitrary: s)
  case Nil
  show ?case by simp
next
  case (Cons a as)
  show ?case by (simp add: Cons.IH setTimeout_def)
qed

lemma map_Tooltip_eq:
  "map_Tooltip ts s =
     (map (\<lambda>i. length (objects s) + i) [0..<length ts],
      s\<lparr>objects := objects s @ map TooltipWidget ts\<rparr>)"
proof (induction ts arbitrary: s)
  case Nil
  show ?case by simp
next
  case (Cons t ts)
  show ?case by (simp add: Cons.IH new_object_def map_upt_Suc del: upt_Suc)
qed

lemma enumerate_map_upt:
  "map f (enumerate b xs) = map (\<lambda>i. f (b + i, xs ! i)) [0..<length xs]"
proof (induction xs arbitrary: b rule: rev_induct)
  case Nil
  show ?case by simp
next
  case (snoc x xs)
  show ?case by (simp add: enumerate_append_eq snoc.IH nth_append)
qed

lemma on_DOMContentLoaded_eq:
  "on_DOMContentLoaded s =
     (let as = querySelectorAll (ByClass ''alert'') s;
          ts = querySelectorAll (ByAttribute ''data-bs-toggle'' ''tooltip'') s
      in (\<lparr>alerts = as, tooltipTriggerList = ts,
           tooltipList = map (\<lambda>i. length (objects s) + i) [0..<length ts]\<rparr>,
          s\<lparr>timers := timers s @ map (own_timer s as) [0..<length as],
            next_timer := next_timer s + length as,
            objects := objects s @ map TooltipWidget ts\<rparr>))"
  by (simp add: on_DOMContentLoaded_def Let_def forEach_alert_eq map_Tooltip_eq querySelectorAll_def
      enumerate_map_upt own_timer_def)

lemma filter_eq_upt: "filter (\<lambda>j. j = i) [0..<n] = (if i < n then [i] else [])"
  by (induction n) auto

lemma pending_handler:
  assumes "page_wf s" and "i < length as"
  shows "filter (\<lambda>t. timer_id t = next_timer s + i) (timers s @ map (own_timer s as) [0..<length as])
           = [own_timer s as i]"
proof -
  have old: "filter (\<lambda>t. timer_id t = next_timer s + i) (timers s) = []"
    using assms(1) by (auto simp: page_wf_def list_all_iff filter_empty_conv)
  have "filter (\<lambda>t. timer_id t = next_timer s + i) (map (own_timer s as) [0..<length as])
          = map (own_timer s as) (filter (\<lambda>j. j = i) [0..<length as])"
    by (simp add: filter_map comp_def own_timer_def)
  also have "\<dots> = [own_timer s as i]" using assms(2) by (simp add: filter_eq_upt)
  finally show ?thesis using old by simp
qed

lemma dismissals_by_handler:
  assumes "page_wf s"
  shows "filter (\<lambda>(ms, j, alert). j = next_timer s + i) (dismissals s) = []"
  using assms by (auto simp: page_wf_def list_all_iff filter_empty_conv)

lemma find_filter_single: "filter P xs = [t] \<Longrightarrow> find P xs = Some t"
  by (induction xs) (auto split: if_splits simp: filter_empty_conv)

lemma find_filter_Nil: "filter P xs = [] \<Longrightarrow> find P xs = None"
  by (induction xs) (auto split: if_splits)

lemma filter_other_id:
  "j \<noteq> i \<Longrightarrow> filter (\<lambda>x. timer_id x \<noteq> j \<and> timer_id x = i) ts = filter (\<lambda>t. timer_id t = i) ts"
  by (rule filter_cong) auto

lemma filter_same_id:
  "filter (\<lambda>t. timer_id t = i) (filter (\<lambda>u. timer_id u \<noteq> i) ts) = []"
  by (induction ts) auto

lemma dismissed_once_step:
  assumes "dismissed_once s0 as i s" and "apply_event ev s = Some s'"
  shows "dismissed_once s0 as i s'"
proof (cases ev)
  case (Elapse d)
  with assms show ?thesis by (auto simp: dismissed_once_def pending_def dismissals_by_def)
next
  case (Insert el)
  with assms show ?thesis
    by (auto simp: dismissed_once_def pending_def dismissals_by_def split: if_splits)
next
  case (Fire j)
  from assms(1) have gone: "filter (\<lambda>t. timer_id t = next_timer s0 + i) (timers s) = []"
    by (simp add: dismissed_once_def pending_def)
  show ?thesis
  proof (cases "j = next_timer s0 + i")
    case True
    with assms(2) Fire find_filter_Nil [OF gone] show ?thesis by simp
  next
    case False
    from assms(2) Fire obtain t where t: "find (\<lambda>t. timer_id t = j) (timers s) = Some t"
      and due: "fires_at t \<le> clock s"
      and s': "s' = run_callback t (s\<lparr>timers := filter (\<lambda>u. timer_id u \<noteq> j) (timers s)\<rparr>)"
      by (auto split: option.splits if_splits)
    from t have tj: "timer_id t = j" by (auto simp: find_Some_iff)
    obtain a where a: "action t = CloseAlert a" by (cases "action t")
    have p: "pending (next_timer s0 + i) s' = pending (next_timer s0 + i) s"
      using False by (simp add: s' a pending_def new_object_def filter_other_id)
    have d: "dismissals_by (next_timer s0 + i) s' = dismissals_by (next_timer s0 + i) s"
      using False tj by (simp add: s' a dismissals_by_def new_object_def)
    from assms(1) show ?thesis by (simp add: dismissed_once_def p d)
  qed
qed

lemma scheduled_once_step:
  assumes "scheduled_once s0 as i s" and "apply_event ev s = Some s'"
  shows "scheduled_once s0 as i s'"
proof (cases "dismissed_once s0 as i s")
  case True
  then show ?thesis using dismissed_once_step [OF _ assms(2)] by (simp add: scheduled_once_def)
next
  case False
  with assms(1) have pend: "pending (next_timer s0 + i) s = [own_timer s0 as i]"
    and none: "dismissals_by (next_timer s0 + i) s = []"
    by (simp_all add: scheduled_once_def)
  show ?thesis
  proof (cases ev)
    case (Elapse d)
    with assms(2) pend none show ?thesis
      by (auto simp: scheduled_once_def pending_def dismissals_by_def)
  next
    case (Insert el)
    with assms(2) pend none show ?thesis
      by (auto simp: scheduled_once_def pending_def dismissals_by_def split: if_splits)
  next
    case (Fire j)
    from assms(2) Fire obtain t where t: "find (\<lambda>t. timer_id t = j) (timers s) = Some t"
      and due: "fires_at t \<le> clock s"
      and s': "s' = run_callback t (s\<lparr>timers := filter (\<lambda>u. timer_id u \<noteq> j) (timers s)\<rparr>)"
      by (auto split: option.splits if_splits)
    from t have tj: "timer_id t = j" by (auto simp: find_Some_iff)
    obtain a where a: "action t = CloseAlert a" by (cases "action t")
    show ?thesis
    proof (cases "j = next_timer s0 + i")
      case True
      from pend have "find (\<lambda>t. timer_id t = next_timer s0 + i) (timers s) = Some (own_timer s0 as i)"
        by (simp add: pending_def find_filter_single)
      with t True have own: "t = own_timer s0 as i" by simp
      have p: "pending (next_timer s0 + i) s' = []"
        using True by (simp add: s' a pending_def new_object_def filter_same_id)
      have d: "dismissals_by (next_timer s0 + i) s' = [(clock s, next_timer s0 + i, as ! i)]"
        using none a True tj by (simp add: s' dismissals_by_def new_object_def own own_timer_def)
      have "clock s0 + 5000 \<le> clock s" using due by (simp add: own own_timer_def)
      then show ?thesis by (simp add: scheduled_once_def dismissed_once_def p d)
    next
      case False
      have p: "pending (next_timer s0 + i) s' = pending (next_timer s0 + i) s"
        using False by (simp add: s' a pending_def new_object_def filter_other_id)
      have d: "dismissals_by (next_timer s0 + i) s' = dismissals_by (next_timer s0 + i) s"
        using False tj by (simp add: s' a dismissals_by_def new_object_def)
      show ?thesis by (simp add: scheduled_once_def p d pend none)
    qed
  qed
qed

lemma scheduled_once_run:
  "scheduled_once s0 as i s \<Longrightarrow> run evs s = Some s' \<Longrightarrow> scheduled_once s0 as i s'"
proof (induction evs arbitrary: s)
  case Nil
  then show ?case by simp
next
  case (Cons ev evs)
  then show ?case by (auto split: option.splits dest: scheduled_once_step)
qed

lemma dismissed_once_run:
  "dismissed_once s0 as i s \<Longrightarrow> run evs s = Some s' \<Longrightarrow> dismissed_once s0 as i s'"
proof (induction evs arbitrary: s)
  case Nil
  then show ?case by simp
next
  case (Cons ev evs)
  then show ?case by (auto split: option.splits dest: dismissed_once_step)
qed

lemma fire_when_due:
  assumes "scheduled_once s0 as i s" and "\<not> dismissed_once s0 as i s" and "clock s0 + 5000 \<le> clock s"
  shows "\<exists>s'. apply_event (Fire (next_timer s0 + i)) s = Some s' \<and> dismissed_once s0 as i s'"
proof -
  from assms(1,2) have pend: "pending (next_timer s0 + i) s = [own_timer s0 as i]"
    and none: "dismissals_by (next_timer s0 + i) s = []"
    by (simp_all add: scheduled_once_def)
  from pend have f: "find (\<lambda>t. timer_id t = next_timer s0 + i) (timers s) = Some (own_timer s0 as i)"
    by (simp add: pending_def find_filter_single)
  have "apply_event (Fire (next_timer s0 + i)) s =
      Some (run_callback (own_timer s0 as i)
              (s\<lparr>timers := filter (\<lambda>u. timer_id u \<noteq> next_timer s0 + i) (timers s)\<rparr>))"
    using assms(3) by (simp add: f own_timer_def)
  moreover have "dismissed_once s0 as i (run_callback (own_timer s0 as i)
              (s\<lparr>timers := filter (\<lambda>u. timer_id u \<noteq> next_timer s0 + i) (timers s)\<rparr>))"
    using none assms(3)
    by (simp add: dismissed_once_def pending_def dismissals_by_def own_timer_def new_object_def filter_same_id)
  ultimately show ?thesis by simp
qed

lemma not_before_due:
  assumes "scheduled_once s0 as i s" and "\<not> dismissed_once s0 as i s" and "clock s < clock s0 + 5000"
  shows "apply_event (Fire (next_timer s0 + i)) s = None"
proof -
  from assms(1,2) have "pending (next_timer s0 + i) s = [own_timer s0 as i]"
    by (simp add: scheduled_once_def)
  then have "find (\<lambda>t. timer_id t = next_timer s0 + i) (timers s) = Some (own_timer s0 as i)"
    by (simp add: pending_def find_filter_single)
  then show ?thesis using assms(3) by (simp add: own_timer_def)
qed

lemma fire_clock: "apply_event (Fire i) s = Some s' \<Longrightarrow> clock s' = clock s"
  by (auto split: option.splits if_splits callback.splits simp: new_object_def)

lemma fire_all_dismissed:
  assumes "scheduled_once s0 as i s" and "clock s0 + 5000 \<le> clock s"
    and "next_timer s0 + i \<in> set ids \<or> dismissed_once s0 as i s"
  shows "dismissed_once s0 as i (fire_all ids s)"
  using assms
proof (induction ids arbitrary: s)
  case Nil
  then show ?case by simp
next
  case (Cons j ids)
  show ?case
  proof (cases "apply_event (Fire j) s")
    case None
    have "next_timer s0 + i \<in> set ids \<or> dismissed_once s0 as i s"
    proof (cases "dismissed_once s0 as i s")
      case True
      then show ?thesis by simp
    next
      case False
      from fire_when_due [OF Cons.prems(1) False Cons.prems(2)] None
      have "j \<noteq> next_timer s0 + i" by auto
      with Cons.prems(3) False show ?thesis by simp
    qed
    from Cons.IH [OF Cons.prems(1,2) this] None show ?thesis by simp
  next
    case (Some s1)
    have sch: "scheduled_once s0 as i s1" by (rule scheduled_once_step [OF Cons.prems(1) Some])
    have clk: "clock s0 + 5000 \<le> clock s1" using fire_clock [OF Some] Cons.prems(2) by simp
    have "next_timer s0 + i \<in> set ids \<or> dismissed_once s0 as i s1"
    proof (cases "dismissed_once s0 as i s")
      case True
      then show ?thesis using dismissed_once_step [OF True Some] by simp
    next
      case False
      show ?thesis
      proof (cases "j = next_timer s0 + i")
        case True
        from fire_when_due [OF Cons.prems(1) False Cons.prems(2)] Some True
        show ?thesis by auto
      next
        case False
        with Cons.prems(3) \<open>\<not> dismissed_once s0 as i s\<close> show ?thesis by simp
      qed
    qed
    from Cons.IH [OF sch clk this] Some show ?thesis by simp
  qed
qed

lemma run_due_dismissed:
  assumes "scheduled_once s0 as i s" and "clock s0 + 5000 \<le> clock s"
  shows "dismissed_once s0 as i (run_due s)"
proof -
  have "next_timer s0 + i \<in> set (map timer_id (filter (\<lambda>t. fires_at t \<le> clock s) (timers s)))
        \<or> dismissed_once s0 as i s"
  proof (cases "dismissed_once s0 as i s")
    case True
    then show ?thesis by simp
  next
    case False
    with assms(1) have "pending (next_timer s0 + i) s = [own_timer s0 as i]"
      by (simp add: scheduled_once_def)
    then have "own_timer s0 as i \<in> set (filter (\<lambda>t. timer_id t = next_timer s0 + i) (timers s))"
      by (simp add: pending_def)
    then have "own_timer s0 as i \<in> set (filter (\<lambda>t. fires_at t \<le> clock s) (timers s))"
      using assms(2) by (simp add: own_timer_def)
    then have "timer_id (own_timer s0 as i) \<in> set (map timer_id (filter (\<lambda>t. fires_at t \<le> clock s) (timers s)))"
      by (simp only: set_map) (rule imageI)
    then show ?thesis by (simp add: own_timer_def)
  qed
  from fire_all_dismissed [OF assms this] show ?thesis by (simp add: run_due_def)
qed

lemma distinct_querySelectorAll:
  "distinct (map node_ref (document s)) \<Longrightarrow> distinct (querySelectorAll sel s)"
  by (simp add: querySelectorAll_def distinct_map_filter)

lemma example_handler:
  "on_DOMContentLoaded example_page =
     (\<lparr>alerts = [1, 3], tooltipTriggerList = [2], tooltipList = [0]\<rparr>,
      example_page\<lparr>timers := [\<lparr>timer_id = 0, fires_at = 5100, action = CloseAlert 1\<rparr>,
                               \<lparr>timer_id = 1, fires_at = 5100, action = CloseAlert 3\<rparr>],
                    next_timer := 2, objects := [TooltipWidget 2]\<rparr>)"
  by (simp add: on_DOMContentLoaded_def example_page_def querySelectorAll_def Let_def setTimeout_def
      new_object_def)

lemma example_wf: "page_wf example_page" "distinct (map node_ref (document example_page))"
  by (simp_all add: page_wf_def example_page_def)

text \<open>
  Claim C7. The handler's \<open>tooltipTriggerList\<close> is the list of the elements that carry
  \<open>data-bs-toggle="tooltip"\<close> when it runs, each once and in document order; it constructs
  one tooltip object for each of them and no other object, and \<open>tooltipList\<close> holds the
  references to these objects: as many as there are triggers, all different, the
  \<open>i\<close>-th one the tooltip of the \<open>i\<close>-th trigger.
\<close>

theorem tooltips_one_per_trigger:
  assumes "distinct (map node_ref (document s))" and "on_DOMContentLoaded s = (l, s1)"
  shows "tooltipTriggerList l = querySelectorAll (ByAttribute ''data-bs-toggle'' ''tooltip'') s
       \<and> set (tooltipTriggerList l) =
           node_ref ` {el \<in> set (document s). matches (ByAttribute ''data-bs-toggle'' ''tooltip'') el}
       \<and> distinct (tooltipTriggerList l)
       \<and> length (tooltipList l) = length (tooltipTriggerList l)
       \<and> distinct (tooltipList l)
       \<and> map (\<lambda>r. objects s1 ! r) (tooltipList l) = map TooltipWidget (tooltipTriggerList l)
       \<and> objects s1 = objects s @ map TooltipWidget (tooltipTriggerList l)"
proof -
  let ?ts = "querySelectorAll (ByAttribute ''data-bs-toggle'' ''tooltip'') s"
  from assms(2) have l: "tooltipTriggerList l = ?ts"
    and tl: "tooltipList l = map (\<lambda>i. length (objects s) + i) [0..<length ?ts]"
    and ob: "objects s1 = objects s @ map TooltipWidget ?ts"
    by (auto simp: on_DOMContentLoaded_eq Let_def)
  have set_ts: "set ?ts = node_ref ` {el \<in> set (document s). matches (ByAttribute ''data-bs-toggle'' ''tooltip'') el}"
    by (simp add: querySelectorAll_def)
  have d1: "distinct ?ts" by (rule distinct_querySelectorAll [OF assms(1)])
  have d2: "distinct (tooltipList l)" by (simp add: tl distinct_map inj_on_def)
  have deref: "map (\<lambda>r. objects s1 ! r) (tooltipList l) = map TooltipWidget ?ts"
    by (rule nth_equalityI) (simp_all add: tl ob nth_append)
  show ?thesis using l set_ts d1 d2 deref ob by (simp add: tl)
qed

theorem tooltips_one_per_trigger_witness:
  "tooltipTriggerList (fst (on_DOMContentLoaded example_page)) = [2]
   \<and> tooltipList (fst (on_DOMContentLoaded example_page)) = [0]
   \<and> objects (snd (on_DOMContentLoaded example_page)) = [TooltipWidget 2]"
  using tooltips_one_per_trigger [OF example_wf(2) example_handler]
  by (simp add: example_handler)

lemma handler_scheduled_once:
  assumes "page_wf s" and "i < length (querySelectorAll (ByClass ''alert'') s)"
  shows "scheduled_once s (querySelectorAll (ByClass ''alert'') s) i (snd (on_DOMContentLoaded s))"
  using pending_handler [OF assms] dismissals_by_handler [OF assms(1), of i]
  by (simp add: on_DOMContentLoaded_eq Let_def scheduled_once_def pending_def dismissals_by_def)

text \<open>
  Claim C6. The handler's \<open>alerts\<close> are the elements of class \<open>alert\<close> in the document when
  it runs, each once. It adds one timer for each of them, every one due 5000 ms after the
  handler ran (\<open>own_timer\<close>). Whatever happens afterwards, the timer of the \<open>i\<close>-th alert
  is either still pending and has dismissed nothing, or it is gone and has dismissed its
  alert exactly once, at a time no earlier than 5000 ms after the handler ran
  (\<open>scheduled_once\<close>); once dismissed, always dismissed. While it is pending it cannot run
  before the 5000 ms are over, and from then on it can, which dismisses the alert; when the
  event loop has run the timers that are due (\<open>run_due\<close>) at any time from then on, the
  alert has been dismissed, exactly once.
\<close>

theorem alerts_dismissed_once:
  assumes "page_wf s" and "distinct (map node_ref (document s))"
    and "on_DOMContentLoaded s = (l, s1)"
  shows "alerts l = querySelectorAll (ByClass ''alert'') s
       \<and> set (alerts l) = node_ref ` {el \<in> set (document s). matches (ByClass ''alert'') el}
       \<and> distinct (alerts l)
       \<and> timers s1 = timers s @ map (own_timer s (alerts l)) [0..<length (alerts l)]
       \<and> (\<forall>i evs s2. i < length (alerts l) \<and> run evs s1 = Some s2 \<longrightarrow>
            scheduled_once s (alerts l) i s2
            \<and> (dismissed_once s (alerts l) i s2 \<longrightarrow>
                 (\<forall>evs' s3. run evs' s2 = Some s3 \<longrightarrow> dismissed_once s (alerts l) i s3))
            \<and> (\<not> dismissed_once s (alerts l) i s2 \<longrightarrow>
                 (if clock s + 5000 \<le> clock s2
                  then \<exists>s3. apply_event (Fire (next_timer s + i)) s2 = Some s3
                            \<and> dismissed_once s (alerts l) i s3
                  else apply_event (Fire (next_timer s + i)) s2 = None))
            \<and> (clock s + 5000 \<le> clock s2 \<longrightarrow> dismissed_once s (alerts l) i (run_due s2)))"
proof -
  let ?as = "querySelectorAll (ByClass ''alert'') s"
  from assms(3) have l: "alerts l = ?as"
    and tm: "timers s1 = timers s @ map (own_timer s ?as) [0..<length ?as]"
    and s1: "s1 = snd (on_DOMContentLoaded s)"
    by (auto simp: on_DOMContentLoaded_eq Let_def)
  have set_as: "set ?as = node_ref ` {el \<in> set (document s). matches (ByClass ''alert'') el}"
    by (simp add: querySelectorAll_def)
  have d: "distinct ?as" by (rule distinct_querySelectorAll [OF assms(2)])
  have later: "scheduled_once s ?as i s2
      \<and> (dismissed_once s ?as i s2 \<longrightarrow> (\<forall>evs' s3. run evs' s2 = Some s3 \<longrightarrow> dismissed_once s ?as i s3))
      \<and> (\<not> dismissed_once s ?as i s2 \<longrightarrow>
           (if clock s + 5000 \<le> clock s2
            then \<exists>s3. apply_event (Fire (next_timer s + i)) s2 = Some s3 \<and> dismissed_once s ?as i s3
            else apply_event (Fire (next_timer s + i)) s2 = None))
      \<and> (clock s + 5000 \<le> clock s2 \<longrightarrow> dismissed_once s ?as i (run_due s2))"
    if i: "i < length ?as" and r: "run evs s1 = Some s2" for i evs s2
  proof -
    have sch: "scheduled_once s ?as i s2"
      using handler_scheduled_once [OF assms(1) i] r s1 by (auto dest: scheduled_once_run)
    have stay: "\<forall>evs' s3. run evs' s2 = Some s3 \<longrightarrow> dismissed_once s ?as i s3"
      if "dismissed_once s ?as i s2"
      using that by (auto dest: dismissed_once_run)
    have fire: "if clock s + 5000 \<le> clock s2
            then \<exists>s3. apply_event (Fire (next_timer s + i)) s2 = Some s3 \<and> dismissed_once s ?as i s3
            else apply_event (Fire (next_timer s + i)) s2 = None"
      if nd: "\<not> dismissed_once s ?as i s2"
    proof (cases "clock s + 5000 \<le> clock s2")
      case True
      then show ?thesis using fire_when_due [OF sch nd] by simp
    next
      case False
      then show ?thesis using not_before_due [OF sch nd] by simp
    qed
    have rest: "dismissed_once s ?as i (run_due s2)" if "clock s + 5000 \<le> clock s2"
      by (rule run_due_dismissed [OF sch that])
    from sch stay fire rest show ?thesis by blast
  qed
  show ?thesis
    unfolding l using set_as d tm later by blast
qed

lemma example_run1:
  "run [Elapse 4999, Insert late_alert] (snd (on_DOMContentLoaded example_page)) =
     Some (example_page\<lparr>document := document example_page @ [late_alert], clock := 5099,
             timers := [\<lparr>timer_id = 0, fires_at = 5100, action = CloseAlert 1\<rparr>,
                        \<lparr>timer_id = 1, fires_at = 5100, action = CloseAlert 3\<rparr>],
             next_timer := 2, objects := [TooltipWidget 2]\<rparr>)"
  by (simp add: example_handler) (simp add: example_page_def late_alert_def)

lemma example_run2:
  "run [Elapse 4999, Insert late_alert, Elapse 1, Fire 1]
       (snd (on_DOMContentLoaded example_page)) =
     Some (example_page\<lparr>document := document example_page @ [late_alert], clock := 5100,
             timers := [\<lparr>timer_id = 0, fires_at = 5100, action = CloseAlert 1\<rparr>],
             next_timer := 2, objects := [TooltipWidget 2, AlertWidget 3],
             dismissals := [(5100, 1, 3)]\<rparr>)"
  by (simp add: example_handler) (simp add: example_page_def late_alert_def new_object_def)

theorem alerts_dismissed_once_witness:
  "alerts (fst (on_DOMContentLoaded example_page)) = [1, 3]
   \<and> timers (snd (on_DOMContentLoaded example_page)) =
        [\<lparr>timer_id = 0, fires_at = 5100, action = CloseAlert 1\<rparr>,
         \<lparr>timer_id = 1, fires_at = 5100, action = CloseAlert 3\<rparr>]
   \<and> apply_event (Fire 1) (the (run [Elapse 4999, Insert late_alert] (snd (on_DOMContentLoaded example_page)))) = None
   \<and> dismissed_once example_page [1, 3] 1
        (the (run [Elapse 4999, Insert late_alert, Elapse 1, Fire 1] (snd (on_DOMContentLoaded example_page))))
   \<and> dismissals (the (run [Elapse 4999, Insert late_alert, Elapse 1, Fire 1] (snd (on_DOMContentLoaded example_page))))
        = [(5100, 1, 3)]
   \<and> dismissed_once example_page [1, 3] 0
        (run_due (the (run [Elapse 5000] (snd (on_DOMContentLoaded example_page)))))
   \<and> dismissals (run_due (the (run [Elapse 5000] (snd (on_DOMContentLoaded example_page)))))
        = [(5100, 0, 1), (5100, 1, 3)]"
proof -
  let ?l = "fst (on_DOMContentLoaded example_page)"
  let ?s1 = "snd (on_DOMContentLoaded example_page)"
  note t = alerts_dismissed_once [OF example_wf(1) example_wf(2) prod.collapse [symmetric]]
  note tm = t [THEN conjunct2, THEN conjunct2, THEN conjunct2, THEN conjunct1]
  note later = t [THEN conjunct2, THEN conjunct2, THEN conjunct2, THEN conjunct2, rule_format]
  have i: "1 < length (alerts ?l)" by (simp add: example_handler)
  have al: "alerts ?l = [1, 3]" by (simp add: example_handler)
  have nd: "\<not> dismissed_once example_page (alerts ?l) 1 (the (run [Elapse 4999, Insert late_alert] ?s1))"
    unfolding example_run1 by (simp add: dismissed_once_def pending_def example_page_def)
  have r1: "run [Elapse 4999, Insert late_alert] ?s1 = Some (the (run [Elapse 4999, Insert late_alert] ?s1))"
    unfolding example_run1 by simp
  have r2: "run [Elapse 4999, Insert late_alert, Elapse 1, Fire 1] ?s1
      = Some (the (run [Elapse 4999, Insert late_alert, Elapse 1, Fire 1] ?s1))"
    unfolding example_run2 by simp
  have c1: "\<not> clock example_page + 5000 \<le> clock (the (run [Elapse 4999, Insert late_alert] ?s1))"
    unfolding example_run1 by (simp add: example_page_def)
  from later [OF conjI [OF i r1], THEN conjunct2, THEN conjunct2, THEN conjunct1, rule_format, OF nd] c1
  have early: "apply_event (Fire 1) (the (run [Elapse 4999, Insert late_alert] ?s1)) = None"
    by (simp add: example_page_def)
  have sch: "scheduled_once example_page (alerts ?l) 1
        (the (run [Elapse 4999, Insert late_alert, Elapse 1, Fire 1] ?s1))"
    by (rule later [OF conjI [OF i r2], THEN conjunct1])
  then have fired: "dismissed_once example_page [1, 3] 1
        (the (run [Elapse 4999, Insert late_alert, Elapse 1, Fire 1] ?s1))"
    unfolding example_run2 al by (simp add: scheduled_once_def pending_def example_page_def)
  have ds: "dismissals (the (run [Elapse 4999, Insert late_alert, Elapse 1, Fire 1] ?s1)) = [(5100, 1, 3)]"
    unfolding example_run2 by simp
  have tms: "timers ?s1 = [\<lparr>timer_id = 0, fires_at = 5100, action = CloseAlert 1\<rparr>,
         \<lparr>timer_id = 1, fires_at = 5100, action = CloseAlert 3\<rparr>]"
    unfolding tm al by (simp add: example_page_def own_timer_def upt_rec)
  have r3: "run [Elapse 5000] ?s1 = Some (the (run [Elapse 5000] ?s1))" by simp
  have i0: "0 < length (alerts ?l)" by (simp add: example_handler)
  have c3: "clock example_page + 5000 \<le> clock (the (run [Elapse 5000] ?s1))"
    by (simp add: example_handler)
  from later [OF conjI [OF i0 r3], THEN conjunct2, THEN conjunct2, THEN conjunct2, rule_format, OF c3]
  have rested: "dismissed_once example_page [1, 3] 0 (run_due (the (run [Elapse 5000] ?s1)))"
    unfolding al by simp
  have both: "dismissals (run_due (the (run [Elapse 5000] ?s1))) = [(5100, 0, 1), (5100, 1, 3)]"
    by (simp add: example_handler run_due_def) (simp add: example_page_def new_object_def)
  from al tms early fired ds rested both show ?thesis by blast
qed

lemma document_grows:
  "run evs s = Some s' \<Longrightarrow> set (document s) \<subseteq> set (document s')"
proof (induction evs arbitrary: s)
  case Nil
  then show ?case by simp
next
  case (Cons ev evs)
  from Cons.prems obtain s1 where 1: "apply_event ev s = Some s1" and 2: "run evs s1 = Some s'"
    by (auto split: option.splits)
  have "set (document s) \<subseteq> set (document s1)"
  proof (cases ev)
    case (Fire j)
    with 1 show ?thesis
      by (auto split: option.splits if_splits callback.splits simp: new_object_def)
  qed (use 1 in \<open>auto split: if_splits\<close>)
  with Cons.IH [OF 2] show ?case by blast
qed

lemma inserted_is_new:
  "run evs s = Some s' \<Longrightarrow> Insert el \<in> set evs \<Longrightarrow> node_ref el \<notin> node_ref ` set (document s)"
proof (induction evs arbitrary: s)
  case Nil
  then show ?case by simp
next
  case (Cons ev evs)
  from Cons.prems(1) obtain s1 where 1: "apply_event ev s = Some s1" and 2: "run evs s1 = Some s'"
    by (auto split: option.splits)
  have grow: "set (document s) \<subseteq> set (document s1)"
    using document_grows [of "[ev]" s s1] 1 by simp
  show ?case
  proof (cases "ev = Insert el")
    case True
    with 1 show ?thesis by (auto split: if_splits)
  next
    case False
    with Cons.prems(2) have "Insert el \<in> set evs" by simp
    from Cons.IH [OF 2 this] grow show ?thesis by blast
  qed
qed

lemma set_acted_on:
  "set (acted_on s0 s) = timer_targets s0 s \<union> dismissed_targets s0 s \<union> tooltip_targets s0 s"
proof -
  have "set (map (\<lambda>(ms, j, alert). alert) (filter (\<lambda>(ms, j, alert). next_timer s0 \<le> j) (dismissals s)))
      = {a. \<exists>ms j. (ms, j, a) \<in> set (dismissals s) \<and> next_timer s0 \<le> j}"
    by force
  then show ?thesis
    by (simp add: acted_on_def Un_assoc timer_targets_def dismissed_targets_def tooltip_targets_def)
qed

lemma acted_on_step:
  assumes "apply_event ev s = Some s'" and "length (objects s0) \<le> length (objects s)"
  shows "set (acted_on s0 s') \<subseteq> set (acted_on s0 s) \<and> length (objects s0) \<le> length (objects s')"
proof (cases ev)
  case (Elapse d)
  with assms(1) have "s' = s\<lparr>clock := clock s + d\<rparr>" by simp
  then have "acted_on s0 s' = acted_on s0 s" "objects s' = objects s"
    by (simp_all add: acted_on_def)
  with assms(2) show ?thesis by simp
next
  case (Insert el)
  with assms(1) have "s' = s\<lparr>document := document s @ [el]\<rparr>" by (simp split: if_splits)
  then have "acted_on s0 s' = acted_on s0 s" "objects s' = objects s"
    by (simp_all add: acted_on_def)
  with assms(2) show ?thesis by simp
next
  case (Fire j)
  from assms(1) Fire obtain t where t: "find (\<lambda>t. timer_id t = j) (timers s) = Some t"
    and s': "s' = run_callback t (s\<lparr>timers := filter (\<lambda>u. timer_id u \<noteq> j) (timers s)\<rparr>)"
    by (auto split: option.splits if_splits)
  from t have tj: "timer_id t = j" and tin: "t \<in> set (timers s)"
    by (auto simp: find_Some_iff)
  obtain a where a: "action t = CloseAlert a" by (cases "action t")
  have tm: "timers s' = filter (\<lambda>u. timer_id u \<noteq> j) (timers s)"
    and ds: "dismissals s' = dismissals s @ [(clock s, j, a)]"
    and ob: "objects s' = objects s @ [AlertWidget a]"
    by (simp_all add: s' a new_object_def tj)
  have "a \<in> set (acted_on s0 s)" if "next_timer s0 \<le> j"
  proof -
    have "t \<in> {t \<in> set (timers s). next_timer s0 \<le> timer_id t}" using that tin tj by simp
    then have "callback_target (action t) \<in> set (acted_on s0 s)"
      unfolding set_acted_on timer_targets_def by blast
    then show ?thesis by (simp add: a)
  qed
  then have fired: "next_timer s0 \<le> j \<Longrightarrow> a \<in> set (acted_on s0 s)" .
  have A: "timer_targets s0 s' \<subseteq> timer_targets s0 s"
    by (auto simp: timer_targets_def tm)
  have B: "dismissed_targets s0 s' \<subseteq> dismissed_targets s0 s \<union> (if next_timer s0 \<le> j then {a} else {})"
    by (auto simp: dismissed_targets_def ds)
  have C: "tooltip_targets s0 s' = tooltip_targets s0 s"
    using assms(2) by (simp add: tooltip_targets_def ob)
  have "set (acted_on s0 s') \<subseteq> set (acted_on s0 s)"
  proof (cases "next_timer s0 \<le> j")
    case True
    from fired [OF True] A B C True show ?thesis
      unfolding set_acted_on [of s0 s'] by (auto simp: set_acted_on)
  next
    case False
    with A B C show ?thesis
      unfolding set_acted_on [of s0 s'] by (auto simp: set_acted_on)
  qed
  then show ?thesis by (simp add: ob assms(2) le_SucI)
qed

lemma acted_on_run:
  "run evs s = Some s' \<Longrightarrow> length (objects s0) \<le> length (objects s) \<Longrightarrow>
     set (acted_on s0 s') \<subseteq> set (acted_on s0 s)"
proof (induction evs arbitrary: s)
  case Nil
  then show ?case by simp
next
  case (Cons ev evs)
  from Cons.prems(1) obtain s1 where 1: "apply_event ev s = Some s1" and 2: "run evs s1 = Some s'"
    by (auto split: option.splits)
  from acted_on_step [OF 1 Cons.prems(2)] Cons.IH [OF 2] show ?case by blast
qed

lemma acted_on_handler:
  assumes "page_wf s"
  shows "set (acted_on s (snd (on_DOMContentLoaded s)))
           = set (querySelectorAll (ByClass ''alert'') s)
             \<union> set (querySelectorAll (ByAttribute ''data-bs-toggle'' ''tooltip'') s)"
proof -
  let ?as = "querySelectorAll (ByClass ''alert'') s"
  let ?ts = "querySelectorAll (ByAttribute ''data-bs-toggle'' ''tooltip'') s"
  have old_t: "filter (\<lambda>t. next_timer s \<le> timer_id t) (timers s) = []"
    using assms by (auto simp: page_wf_def list_all_iff filter_empty_conv)
  have old_d: "filter (\<lambda>(ms, j, alert). next_timer s \<le> j) (dismissals s) = []"
    using assms by (auto simp: page_wf_def list_all_iff filter_empty_conv)
  have new_t: "map (\<lambda>t. callback_target (action t))
                 (filter (\<lambda>t. next_timer s \<le> timer_id t) (map (own_timer s ?as) [0..<length ?as])) = ?as"
    by (rule nth_equalityI) (simp_all add: own_timer_def filter_map comp_def)
  have new_o: "concat (map tooltip_target (map TooltipWidget ts)) = ts" for ts
    by (induction ts) simp_all
  show ?thesis
    by (simp add: on_DOMContentLoaded_eq Let_def acted_on_def old_t old_d new_t new_o)
qed

text \<open>
  Claim C8. Both lists are read from the document as it is when the handler runs.
  Whatever happens afterwards, every element that the handler's timers target or have
  dismissed, and every element that got a tooltip object, is in one of the two lists,
  hence was in the document when the handler ran. An element inserted later is not among
  them: it gets neither a dismissal nor a tooltip, whatever its class and attributes.
\<close>

theorem later_elements_untouched:
  assumes "page_wf s" and "on_DOMContentLoaded s = (l, s1)" and "run evs s1 = Some s2"
  shows "alerts l = querySelectorAll (ByClass ''alert'') s
       \<and> tooltipTriggerList l = querySelectorAll (ByAttribute ''data-bs-toggle'' ''tooltip'') s
       \<and> set (acted_on s s2) \<subseteq> set (alerts l) \<union> set (tooltipTriggerList l)
       \<and> set (alerts l) \<union> set (tooltipTriggerList l) \<subseteq> node_ref ` set (document s)
       \<and> (\<forall>el. Insert el \<in> set evs \<longrightarrow> node_ref el \<notin> set (acted_on s s2))"
proof -
  let ?as = "querySelectorAll (ByClass ''alert'') s"
  let ?ts = "querySelectorAll (ByAttribute ''data-bs-toggle'' ''tooltip'') s"
  from assms(2) have l: "alerts l = ?as" "tooltipTriggerList l = ?ts"
    and s1: "s1 = snd (on_DOMContentLoaded s)"
    and ob: "length (objects s) \<le> length (objects s1)"
    and doc: "document s1 = document s"
    by (auto simp: on_DOMContentLoaded_eq Let_def)
  have sub: "set (acted_on s s2) \<subseteq> set ?as \<union> set ?ts"
    using acted_on_run [OF assms(3) ob] acted_on_handler [OF assms(1)] s1 by simp
  have known: "set ?as \<union> set ?ts \<subseteq> node_ref ` set (document s)"
    by (auto simp: querySelectorAll_def)
  have "node_ref el \<notin> set (acted_on s s2)" if "Insert el \<in> set evs" for el
    using inserted_is_new [OF assms(3) that] sub known doc by auto
  with l sub known show ?thesis by simp
qed

lemma example_run3:
  "run [Insert late_alert, Elapse 6000, Fire 0, Fire 1] (snd (on_DOMContentLoaded example_page)) =
     Some (example_page\<lparr>document := document example_page @ [late_alert], clock := 6100,
             timers := [], next_timer := 2,
             objects := [TooltipWidget 2, AlertWidget 1, AlertWidget 3],
             dismissals := [(6100, 0, 1), (6100, 1, 3)]\<rparr>)"
  by (simp add: example_handler) (simp add: example_page_def late_alert_def new_object_def)

theorem later_elements_untouched_witness:
  "matches (ByClass ''alert'') late_alert
   \<and> matches (ByAttribute ''data-bs-toggle'' ''tooltip'') late_alert
   \<and> late_alert \<in> set (document (the (run [Insert late_alert, Elapse 6000, Fire 0, Fire 1]
                                          (snd (on_DOMContentLoaded example_page)))))
   \<and> timers (the (run [Insert late_alert, Elapse 6000, Fire 0, Fire 1]
                      (snd (on_DOMContentLoaded example_page)))) = []
   \<and> node_ref late_alert \<notin> set (acted_on example_page
        (the (run [Insert late_alert, Elapse 6000, Fire 0, Fire 1]
                  (snd (on_DOMContentLoaded example_page)))))"
proof -
  let ?evs = "[Insert late_alert, Elapse 6000, Fire 0, Fire 1]"
  let ?s1 = "snd (on_DOMContentLoaded example_page)"
  have r: "run ?evs ?s1 = Some (the (run ?evs ?s1))"
    unfolding example_run3 by simp
  note t = later_elements_untouched [OF example_wf(1) prod.collapse [symmetric] r]
  have "Insert late_alert \<in> set ?evs" by simp
  with t have "node_ref late_alert \<notin> set (acted_on example_page (the (run ?evs ?s1)))"
    by blast
  moreover have "matches (ByClass ''alert'') late_alert"
    "matches (ByAttribute ''data-bs-toggle'' ''tooltip'') late_alert"
    by (simp_all add: late_alert_def)
  moreover have "late_alert \<in> set (document (the (run ?evs ?s1)))"
    "timers (the (run ?evs ?s1)) = []"
    unfolding example_run3 by simp_all
  ultimately show ?thesis by blast
qed

section \<open>formatCurrency and the page\<close>

lemma call_formatCurrency_Primitive:
  "call_formatCurrency (Primitive amount) s =
     (case formatCurrency amount of Inl err \<Rightarrow> Inl (HostError err) | Inr shown \<Rightarrow> Inr shown, s)"
proof -
  have same: "parseFloat (JSString (ToString amount)) = parseFloat amount"
    by (simp add: parseFloat_def)
  show ?thesis
    by (simp add: call_formatCurrency_def parseFloat_in_def toFixed_in_def and_then_def
        formatCurrency_def same split: sum.splits)
qed

lemma call_formatCurrency_argument:
  "call_formatCurrency amount s =
     and_then (ToString_in amount s) (\<lambda>inputString. call_formatCurrency (Primitive (JSString inputString)))"
  by (cases "ToString_in amount s"; cases "fst (ToString_in amount s)")
    (simp_all add: call_formatCurrency_def parseFloat_in_def and_then_def)

text \<open>
  Claim C5. The amounts are the primitive values (the numbers and the texts of the
  specification among them). A call of \<open>formatCurrency\<close> with an amount, in any page \<open>s\<close>,
  returns the string that \<open>formatCurrency\<close> assigns to the amount, raises nothing, and leaves
  the page as it was; so a second call with the same amount returns the same string and
  again leaves the page as it was, and the string is the same in whatever page \<open>s'\<close> the
  call is made. The amount enters only through its text. For an argument of any kind the
  body of the function adds no effect of its own: the page after the call is the page after
  the conversion of the argument to a string, and the outcome is that of the call with the
  string.
\<close>

theorem formatCurrency_pure:
  "(\<exists>shown. formatCurrency amount = Inr (rupee # shown)
       \<and> call_formatCurrency (Primitive amount) s = (Inr (rupee # shown), s))
   \<and> call_formatCurrency (Primitive amount) (snd (call_formatCurrency (Primitive amount) s))
       = call_formatCurrency (Primitive amount) s
   \<and> fst (call_formatCurrency (Primitive amount) s') = fst (call_formatCurrency (Primitive amount) s)
   \<and> call_formatCurrency (Primitive amount) s
       = call_formatCurrency (Primitive (JSString (ToString amount))) s
   \<and> snd (call_formatCurrency argument s) = snd (ToString_in argument s)
   \<and> call_formatCurrency argument s
       = and_then (ToString_in argument s)
           (\<lambda>inputString. call_formatCurrency (Primitive (JSString inputString)))"
proof -
  obtain shown where "toFixed 2 (parseFloat amount) = Inr shown"
    using toFixed_2_total by blast
  then have fc: "formatCurrency amount = Inr (rupee # shown)"
    by (simp add: formatCurrency_def)
  then have call: "call_formatCurrency (Primitive amount) t = (Inr (rupee # shown), t)" for t
    by (simp add: call_formatCurrency_Primitive)
  have by_text: "call_formatCurrency (Primitive amount) s
       = call_formatCurrency (Primitive (JSString (ToString amount))) s"
    using call_formatCurrency_argument [of "Primitive amount" s] by (simp add: and_then_def)
  have arg: "call_formatCurrency argument s
       = and_then (ToString_in argument s)
           (\<lambda>inputString. call_formatCurrency (Primitive (JSString inputString)))"
    by (rule call_formatCurrency_argument)
  have "snd (call_formatCurrency (Primitive (JSString inputString)) t) = t" for inputString t
    by (simp add: call_formatCurrency_Primitive)
  then have page: "snd (call_formatCurrency argument s) = snd (ToString_in argument s)"
    unfolding arg by (cases "ToString_in argument s"; cases "fst (ToString_in argument s)")
      (simp_all add: and_then_def)
  have first: "\<exists>shown. formatCurrency amount = Inr (rupee # shown)
       \<and> call_formatCurrency (Primitive amount) s = (Inr (rupee # shown), s)"
    using fc call [of s] by blast
  have again: "call_formatCurrency (Primitive amount) (snd (call_formatCurrency (Primitive amount) s))
       = call_formatCurrency (Primitive amount) s"
    by (simp only: call snd_conv)
  have anywhere: "fst (call_formatCurrency (Primitive amount) s') = fst (call_formatCurrency (Primitive amount) s)"
    by (simp only: call fst_conv)
  from first again anywhere by_text page arg show ?thesis by blast
qed

lemma parseFloat_text_100: "parseFloat (JSString (str ''100'')) = Finite False 7036874417766400 (- 46)"
  by (simp add: parseFloat_def eval_parse eval_chars eval_round)

lemma parseFloat_text_150: "parseFloat (JSString (str ''150'')) = Finite False 5277655813324800 (- 45)"
  by (simp add: parseFloat_def eval_parse eval_chars eval_round)

lemma digits_of_100: "digits_of 100 = str ''100''" "digits_of 150 = str ''150''"
  by (simp_all add: digits_of.simps eval_chars)

text \<open>
  An argument that is not a primitive value: a Symbol makes the call raise a TypeError, and
  with an object the text and the effects are those of the object's own conversion. The
  object \<open>stamping\<close> gives the glyph followed by \<open>100.00\<close> at time 100 and by \<open>150.00\<close> at
  time 150, and each call leaves the timer that its \<open>toString\<close> has set.
\<close>

theorem object_argument_effects:
  "call_formatCurrency SymbolValue s = (Inl (HostError TypeError), s)
   \<and> call_formatCurrency stamping example_page
       = (Inr (rupee # str ''100.00''), setTimeout (CloseAlert 1) 0 example_page)
   \<and> timers (snd (call_formatCurrency stamping example_page)) \<noteq> timers example_page
   \<and> fst (call_formatCurrency stamping (example_page\<lparr>clock := 150\<rparr>)) = Inr (rupee # str ''150.00'')"
proof -
  have c100: "clock example_page = 100" by (simp add: example_page_def)
  have f100: "formatCurrency (JSString (str ''100'')) = Inr (rupee # str ''100.00'')"
    unfolding formatCurrency_def parseFloat_text_100 by (simp add: eval_toFixed eval_chars)
  have f150: "formatCurrency (JSString (str ''150'')) = Inr (rupee # str ''150.00'')"
    unfolding formatCurrency_def parseFloat_text_150 by (simp add: eval_toFixed eval_chars)
  have sym: "call_formatCurrency SymbolValue s = (Inl (HostError TypeError), s)"
    by (simp add: call_formatCurrency_def parseFloat_in_def and_then_def)
  have a: "call_formatCurrency stamping example_page
     = (Inr (rupee # str ''100.00''), setTimeout (CloseAlert 1) 0 example_page)"
    by (subst call_formatCurrency_argument)
      (simp add: stamping_def and_then_def c100 digits_of_100 call_formatCurrency_Primitive f100)
  have b: "fst (call_formatCurrency stamping (example_page\<lparr>clock := 150\<rparr>)) = Inr (rupee # str ''150.00'')"
    by (subst call_formatCurrency_argument)
      (simp add: stamping_def and_then_def digits_of_100 call_formatCurrency_Primitive f150)
  have "timers (setTimeout (CloseAlert 1) 0 example_page) \<noteq> timers example_page"
    by (simp add: setTimeout_def example_page_def)
  with sym a b show ?thesis by simp
qed

end
